theory Spec2Isabelle
  imports Main "HOL-Library.Word"
begin

unbundle bit_operations_syntax

section \<open>Machine model\<close>

text \<open>
  The allocator is written for a 32-bit build: a header word, a size and a pointer are all
  four bytes wide (\<^verbatim>\<open>WSIZE\<close> is 4 and \<^verbatim>\<open>GET\<close> reads a \<^verbatim>\<open>size_t\<close> through a
  pointer to a four-byte cell).  Addresses, sizes and stored words are therefore
  \<^typ>\<open>32 word\<close>; pointer arithmetic wraps as the machine does.  Memory is an array of
  bytes, little-endian.
\<close>

type_synonym addr = "32 word"
type_synonym memory = "32 word \<Rightarrow> 8 word"

record state =
  mem :: memory
  mem_brk :: addr
  mem_max_addr :: addr
  p_heap_list :: addr
  mp_firstfreeblock :: addr
  m_freecount :: int

text \<open>
  \<^verbatim>\<open>m_freecount\<close> is a C \<^verbatim>\<open>int\<close> that counts the free blocks; it moves by one per
  list operation and is reset to 0 when it reaches -1, so it is modelled as \<^typ>\<open>int\<close>.
\<close>

subsection \<open>Basic constants and macros\<close>

definition WSIZE :: "32 word" where "WSIZE = 4"
definition DSIZE :: "32 word" where "DSIZE = 8"
definition CHUNKSIZE :: "32 word" where "CHUNKSIZE = push_bit 12 1"
definition OVERHEAD :: "32 word" where "OVERHEAD = 8"
definition NULL :: addr where "NULL = 0"

definition MAX_sz :: "32 word \<Rightarrow> 32 word \<Rightarrow> 32 word" where
  "MAX_sz x y = (if x > y then x else y)"

definition PACK :: "32 word \<Rightarrow> 32 word \<Rightarrow> 32 word" where
  "PACK sz alloc = sz OR alloc"

definition GET :: "memory \<Rightarrow> addr \<Rightarrow> 32 word" where
  "GET m p = ucast (m p) OR push_bit 8 (ucast (m (p + 1)))
               OR push_bit 16 (ucast (m (p + 2))) OR push_bit 24 (ucast (m (p + 3)))"

definition PUT :: "memory \<Rightarrow> addr \<Rightarrow> 32 word \<Rightarrow> memory" where
  "PUT m p val = m(p := ucast val,
                   p + 1 := ucast (drop_bit 8 val),
                   p + 2 := ucast (drop_bit 16 val),
                   p + 3 := ucast (drop_bit 24 val))"

definition GET_SIZE :: "memory \<Rightarrow> addr \<Rightarrow> 32 word" where
  "GET_SIZE m p = GET m p AND NOT 7"

definition GET_ALLOC :: "memory \<Rightarrow> addr \<Rightarrow> 32 word" where
  "GET_ALLOC m p = GET m p AND 1"

definition HDRP :: "addr \<Rightarrow> addr" where
  "HDRP block_ptr = block_ptr - WSIZE"

definition FTRP :: "memory \<Rightarrow> addr \<Rightarrow> addr" where
  "FTRP m block_ptr = block_ptr + GET_SIZE m (HDRP block_ptr) - DSIZE"

definition NEXT_BLKP :: "memory \<Rightarrow> addr \<Rightarrow> addr" where
  "NEXT_BLKP m block_ptr = block_ptr + GET_SIZE m (block_ptr - WSIZE)"

definition PREV_BLKP :: "memory \<Rightarrow> addr \<Rightarrow> addr" where
  "PREV_BLKP m block_ptr = block_ptr - GET_SIZE m (block_ptr - DSIZE)"

definition SUC_PTR :: "addr \<Rightarrow> addr" where
  "SUC_PTR block_ptr = block_ptr + WSIZE"

text \<open>
  \<^verbatim>\<open>PREV(bp)\<close> and \<^verbatim>\<open>SUCC(bp)\<close> are lvalues: the pointer cell at \<^verbatim>\<open>bp\<close> and the one at
  \<^verbatim>\<open>bp + WSIZE\<close>.  Reading is \<open>PREV\<close>/\<open>SUCC\<close>, assigning is \<open>set_PREV\<close>/\<open>set_SUCC\<close>.
\<close>

definition PREV :: "memory \<Rightarrow> addr \<Rightarrow> addr" where
  "PREV m block_ptr = GET m block_ptr"

definition SUCC :: "memory \<Rightarrow> addr \<Rightarrow> addr" where
  "SUCC m block_ptr = GET m (SUC_PTR block_ptr)"

definition set_PREV :: "state \<Rightarrow> addr \<Rightarrow> addr \<Rightarrow> state" where
  "set_PREV s block_ptr v = s\<lparr>mem := PUT (mem s) block_ptr v\<rparr>"

definition set_SUCC :: "state \<Rightarrow> addr \<Rightarrow> addr \<Rightarrow> state" where
  "set_SUCC s block_ptr v = s\<lparr>mem := PUT (mem s) (SUC_PTR block_ptr) v\<rparr>"

definition PUTs :: "state \<Rightarrow> addr \<Rightarrow> 32 word \<Rightarrow> state" where
  "PUTs s p val = s\<lparr>mem := PUT (mem s) p val\<rparr>"

subsection \<open>The memory provider\<close>

text \<open>
  Modelled from the spec: \<^verbatim>\<open>mem_sbrk\<close> (memlib.c is not part of the sources).  The spec's
  \<^verbatim>\<open>grow(n)\<close> extends the heap by exactly \<open>n\<close> bytes contiguous with the previous
  high-water mark and returns the start of the new region, or a failure sentinel when no
  more address space is available.  The provider owns the addresses up to
  \<open>mem_max_addr\<close>; the failure sentinel is \<^verbatim>\<open>(void *)-1\<close>, the value \<^verbatim>\<open>extend_heap\<close>
  tests for.  A failed call changes nothing.
\<close>

definition mem_sbrk :: "state \<Rightarrow> 32 word \<Rightarrow> addr \<times> state" where
  "mem_sbrk s incr =
     (if unat (mem_brk s) + unat incr > unat (mem_max_addr s) then (- 1, s)
      else (mem_brk s, s\<lparr>mem_brk := mem_brk s + incr\<rparr>))"

subsection \<open>Free-list maintenance\<close>

definition free_block :: "state \<Rightarrow> addr \<Rightarrow> state" where
  "free_block s0 block_ptr =
     (let s = s0\<lparr>m_freecount := m_freecount s0 + 1\<rparr> in
      if mp_firstfreeblock s = p_heap_list s \<or> mp_firstfreeblock s = NULL then
        (let s = set_SUCC s block_ptr NULL;
             s = set_PREV s block_ptr NULL
         in s\<lparr>mp_firstfreeblock := block_ptr\<rparr>)
      else
        (let s = set_SUCC s block_ptr (mp_firstfreeblock s);
             s = set_PREV s block_ptr NULL;
             s = set_PREV s (mp_firstfreeblock s) block_ptr
         in s\<lparr>mp_firstfreeblock := block_ptr\<rparr>))"

definition allocate_block :: "state \<Rightarrow> addr \<Rightarrow> state" where
  "allocate_block s0 block_ptr =
     (let s = s0\<lparr>m_freecount := m_freecount s0 - 1\<rparr> in
      if m_freecount s = 0 then
        (let s = set_PREV s block_ptr NULL;
             s = set_SUCC s block_ptr NULL
         in s\<lparr>mp_firstfreeblock := NULL\<rparr>)
      else if m_freecount s = - 1 then s\<lparr>m_freecount := 0\<rparr>
      else
        (let pp = PREV (mem s) block_ptr;
             np = SUCC (mem s) block_ptr
         in if np = NULL then
              (let s = set_SUCC s pp NULL;
                   s = set_SUCC s block_ptr NULL
               in set_PREV s block_ptr NULL)
            else if pp = NULL then
              (let s = s\<lparr>mp_firstfreeblock := SUCC (mem s) block_ptr\<rparr>;
                   s = set_PREV s (mp_firstfreeblock s) NULL;
                   s = set_PREV s block_ptr NULL
               in set_SUCC s block_ptr NULL)
            else
              (let s = set_SUCC s pp np;
                   s = set_PREV s np pp;
                   s = set_SUCC s block_ptr NULL
               in set_PREV s block_ptr NULL)))"

subsection \<open>Coalescing\<close>

text \<open>
  \<^verbatim>\<open>coalesce\<close> is embedded together with the order of its effects: every call of
  \<^verbatim>\<open>allocate_block\<close> (a removal from the free list), every \<^verbatim>\<open>PUT\<close> of a boundary tag
  and every call of \<^verbatim>\<open>free_block\<close> (an insertion) is recorded, in program order, next
  to the state it produces.
\<close>

datatype event = Removed addr | Wrote addr | Inserted addr

definition coalesce_tr :: "state \<Rightarrow> addr \<Rightarrow> event list \<times> addr \<times> state" where
  "coalesce_tr s block_ptr =
     (let prev_alloc = GET_ALLOC (mem s) (FTRP (mem s) (PREV_BLKP (mem s) block_ptr));
          next_alloc = GET_ALLOC (mem s) (HDRP (NEXT_BLKP (mem s) block_ptr));
          sz = GET_SIZE (mem s) (HDRP block_ptr)
      in
      if prev_alloc \<noteq> 0 \<and> next_alloc \<noteq> 0 then
        ([Inserted block_ptr], block_ptr, free_block s block_ptr)
      else if prev_alloc \<noteq> 0 \<and> next_alloc = 0 then
        (let n = NEXT_BLKP (mem s) block_ptr;
             s1 = allocate_block s n;
             sz = sz + GET_SIZE (mem s1) (HDRP (NEXT_BLKP (mem s1) block_ptr));
             h = HDRP block_ptr;
             s2 = PUTs s1 h (PACK sz 0);
             f = FTRP (mem s2) block_ptr;
             s3 = PUTs s2 f (PACK sz 0)
         in ([Removed n, Wrote h, Wrote f, Inserted block_ptr],
             block_ptr, free_block s3 block_ptr))
      else if prev_alloc = 0 \<and> next_alloc \<noteq> 0 then
        (let p = PREV_BLKP (mem s) block_ptr;
             s1 = allocate_block s p;
             sz = sz + GET_SIZE (mem s1) (HDRP (PREV_BLKP (mem s1) block_ptr));
             f = FTRP (mem s1) block_ptr;
             s2 = PUTs s1 f (PACK sz 0);
             h = HDRP (PREV_BLKP (mem s2) block_ptr);
             s3 = PUTs s2 h (PACK sz 0);
             block_ptr = PREV_BLKP (mem s3) block_ptr
         in ([Removed p, Wrote f, Wrote h, Inserted block_ptr],
             block_ptr, free_block s3 block_ptr))
      else
        (let n = NEXT_BLKP (mem s) block_ptr;
             s1 = allocate_block s n;
             p = PREV_BLKP (mem s1) block_ptr;
             s2 = allocate_block s1 p;
             sz = sz + (GET_SIZE (mem s2) (HDRP (PREV_BLKP (mem s2) block_ptr))
                          + GET_SIZE (mem s2) (FTRP (mem s2) (NEXT_BLKP (mem s2) block_ptr)));
             h = HDRP (PREV_BLKP (mem s2) block_ptr);
             s3 = PUTs s2 h (PACK sz 0);
             f = FTRP (mem s3) (NEXT_BLKP (mem s3) block_ptr);
             s4 = PUTs s3 f (PACK sz 0);
             block_ptr = PREV_BLKP (mem s4) block_ptr
         in ([Removed n, Removed p, Wrote h, Wrote f, Inserted block_ptr],
             block_ptr, free_block s4 block_ptr)))"

definition coalesce :: "state \<Rightarrow> addr \<Rightarrow> addr \<times> state" where
  "coalesce s block_ptr = snd (coalesce_tr s block_ptr)"

subsection \<open>Heap extension, placement, search\<close>

definition extend_heap :: "state \<Rightarrow> 32 word \<Rightarrow> addr \<times> state" where
  "extend_heap s words =
     (let sz = (if words mod 2 \<noteq> 0 then (words + 1) * WSIZE else words * WSIZE);
          (block_ptr, s) = mem_sbrk s sz
      in if block_ptr = - 1 then (NULL, s)
         else
           (let s = PUTs s (HDRP block_ptr) (PACK sz 0);
                s = PUTs s (FTRP (mem s) block_ptr) (PACK sz 0);
                s = PUTs s (HDRP (NEXT_BLKP (mem s) block_ptr)) (PACK 0 1)
            in coalesce s block_ptr))"

definition place :: "state \<Rightarrow> addr \<Rightarrow> 32 word \<Rightarrow> state" where
  "place s block_ptr asize =
     (let csize = GET_SIZE (mem s) (HDRP block_ptr);
          s = allocate_block s block_ptr
      in if csize - asize \<ge> DSIZE + OVERHEAD then
           (let s = PUTs s (HDRP block_ptr) (PACK asize 1);
                s = PUTs s (FTRP (mem s) block_ptr) (PACK asize 1);
                block_ptr = NEXT_BLKP (mem s) block_ptr;
                s = PUTs s (HDRP block_ptr) (PACK (csize - asize) 0);
                s = PUTs s (FTRP (mem s) block_ptr) (PACK (csize - asize) 0)
            in free_block s block_ptr)
         else
           (let s = PUTs s (HDRP block_ptr) (PACK csize 1)
            in PUTs s (FTRP (mem s) block_ptr) (PACK csize 1)))"

text \<open>
  The search loop of \<^verbatim>\<open>find_fit\<close>.  It has no bound of its own (a cyclic chain of
  successor links keeps it running), so not returning is the value \<open>None\<close>.
\<close>

partial_function (option) find_fit_loop :: "state \<Rightarrow> 32 word \<Rightarrow> addr \<Rightarrow> addr option" where
  "find_fit_loop s asize block_ptr =
     (if \<not> m_freecount s \<ge> 0 then Some NULL
      else if block_ptr = NULL then Some NULL
      else if GET_ALLOC (mem s) (HDRP block_ptr) = 0
              \<and> asize \<le> GET_SIZE (mem s) (HDRP block_ptr) then Some block_ptr
      else find_fit_loop s asize (SUCC (mem s) block_ptr))"

definition find_fit :: "state \<Rightarrow> 32 word \<Rightarrow> addr option" where
  "find_fit s asize = find_fit_loop s asize (mp_firstfreeblock s)"

subsection \<open>The public operations\<close>

definition mm_init :: "state \<Rightarrow> int \<times> state" where
  "mm_init s0 =
     (let (p, s) = mem_sbrk s0 (4 * WSIZE);
          s = s\<lparr>p_heap_list := p\<rparr>
      in if p_heap_list s = NULL then (- 1, s)
         else
           (let s = PUTs s (p_heap_list s) 0;
                s = PUTs s (p_heap_list s + WSIZE) (PACK OVERHEAD 1);
                s = PUTs s (p_heap_list s + DSIZE) (PACK OVERHEAD 1);
                s = PUTs s (p_heap_list s + WSIZE + DSIZE) (PACK 0 1);
                s = s\<lparr>p_heap_list := p_heap_list s + DSIZE\<rparr>;
                s = s\<lparr>mp_firstfreeblock := p_heap_list s\<rparr>;
                s = s\<lparr>m_freecount := 0\<rparr>;
                (r, s) = extend_heap s (CHUNKSIZE div WSIZE)
            in if r = NULL then (- 1, s)
               else
                 (let s = set_SUCC s (mp_firstfreeblock s + WSIZE) NULL;
                      s = set_PREV s (mp_firstfreeblock s + WSIZE) NULL
                  in (0, s))))"

definition adjust_size :: "32 word \<Rightarrow> 32 word" where
  "adjust_size sz =
     (if sz \<le> DSIZE then DSIZE + OVERHEAD
      else DSIZE * ((sz + OVERHEAD + (DSIZE - 1)) div DSIZE))"

definition mm_malloc :: "state \<Rightarrow> 32 word \<Rightarrow> (addr \<times> state) option" where
  "mm_malloc s sz =
     (if sz \<le> 0 then Some (NULL, s)
      else
        (let asize = adjust_size sz in
         case find_fit s asize of
           None \<Rightarrow> None
         | Some block_ptr \<Rightarrow>
             if block_ptr \<noteq> NULL then Some (block_ptr, place s block_ptr asize)
             else
               (let extendsize = MAX_sz asize CHUNKSIZE;
                    (block_ptr, s) = extend_heap s (extendsize div WSIZE)
                in if block_ptr = NULL then Some (NULL, s)
                   else Some (block_ptr, place s block_ptr asize))))"

definition mm_free :: "state \<Rightarrow> addr \<Rightarrow> state" where
  "mm_free s block_ptr =
     (let sz = GET_SIZE (mem s) (HDRP block_ptr);
          s = PUTs s (HDRP block_ptr) (PACK sz 0);
          s = PUTs s (FTRP (mem s) block_ptr) (PACK sz 0)
      in snd (coalesce s block_ptr))"

text \<open>
  \<^verbatim>\<open>memcpy(dst, src, n)\<close>: the \<open>n\<close> bytes from \<open>src\<close> are copied to \<open>dst\<close>; every other
  byte is kept.
\<close>

definition memcpy :: "memory \<Rightarrow> addr \<Rightarrow> addr \<Rightarrow> 32 word \<Rightarrow> memory" where
  "memcpy m dst src n = (\<lambda>a. if a - dst < n then m (src + (a - dst)) else m a)"

text \<open>
  \<^verbatim>\<open>mm_realloc\<close> ends the process with \<^verbatim>\<open>exit(1)\<close> when \<^verbatim>\<open>mm_malloc\<close> returns
  \<^verbatim>\<open>NULL\<close>; that outcome is \<open>Exited\<close>.
\<close>

datatype outcome = Exited | Returned addr state

definition realloc_copySize :: "state \<Rightarrow> addr \<Rightarrow> 32 word \<Rightarrow> 32 word" where
  "realloc_copySize s ptr sz =
     (let copySize = GET_SIZE (mem s) (HDRP ptr)
      in if sz < copySize then sz else copySize)"

definition mm_realloc :: "state \<Rightarrow> addr \<Rightarrow> 32 word \<Rightarrow> outcome option" where
  "mm_realloc s ptr sz =
     (case mm_malloc s sz of
        None \<Rightarrow> None
      | Some (newp, s) \<Rightarrow>
          if newp = NULL then Some Exited
          else
            (let copySize = realloc_copySize s ptr sz;
                 s = s\<lparr>mem := memcpy (mem s) newp ptr copySize\<rparr>;
                 s = mm_free s ptr
             in Some (Returned newp s)))"

section \<open>The heap as a sequence of blocks\<close>

text \<open>
  The properties below are stated against an abstract reading of memory.  Addresses are taken
  as integers below \<open>2 ^ 32\<close> and turned into machine addresses by \<open>W\<close>; a boundary tag
  of a block of \<open>sz\<close> bytes is the word \<open>tagw sz al\<close>, with \<open>al\<close> the allocated flag.
  A heap is a list of blocks \<open>(sz, al)\<close> laid out one after the other from the first block
  pointer \<open>a0\<close>: \<open>tseg\<close> says that each block carries its tag in the header cell, four
  bytes below the block pointer, and in the footer cell, the last four bytes of the block.
  The free list is the list of the block pointers met by following the successor links from
  \<^verbatim>\<open>mp_firstfreeblock\<close>; \<open>dseg\<close> also checks every predecessor link on the way.
\<close>

definition W :: "int \<Rightarrow> addr" where "W n = of_int n"

definition tagw :: "int \<Rightarrow> bool \<Rightarrow> 32 word" where
  "tagw sz al = PACK (W sz) (if al then 1 else 0)"

type_synonym blk = "int \<times> bool"

fun tseg :: "memory \<Rightarrow> int \<Rightarrow> blk list \<Rightarrow> bool" where
  "tseg m a [] = True"
| "tseg m a (b # bs) =
     (GET m (W (a - 4)) = tagw (fst b) (snd b) \<and> GET m (W (a + fst b - 8)) = tagw (fst b) (snd b)
      \<and> tseg m (a + fst b) bs)"

definition total :: "blk list \<Rightarrow> int" where
  "total bs = sum_list (map fst bs)"

fun addrs :: "int \<Rightarrow> blk list \<Rightarrow> int list" where
  "addrs a [] = []"
| "addrs a (b # bs) = a # addrs (a + fst b) bs"

fun free_addrs :: "int \<Rightarrow> blk list \<Rightarrow> int list" where
  "free_addrs a [] = []"
| "free_addrs a (b # bs) = (if snd b then [] else [a]) @ free_addrs (a + fst b) bs"

definition sizes_ok :: "blk list \<Rightarrow> bool" where
  "sizes_ok bs = (\<forall>b\<in>set bs. 16 \<le> fst b \<and> 8 dvd fst b)"

fun no_adj :: "blk list \<Rightarrow> bool" where
  "no_adj (b1 # b2 # bs) = ((snd b1 \<or> snd b2) \<and> no_adj (b2 # bs))"
| "no_adj [b] = True"
| "no_adj [] = True"

fun dseg :: "memory \<Rightarrow> addr \<Rightarrow> addr \<Rightarrow> int list \<Rightarrow> addr \<Rightarrow> bool" where
  "dseg m pr p [] q = (p = q)"
| "dseg m pr p (x # xs) q = (p = W x \<and> PREV m (W x) = pr \<and> dseg m (W x) (SUCC m (W x)) xs q)"

definition lastp :: "addr \<Rightarrow> int list \<Rightarrow> addr" where
  "lastp pr xs = (if xs = [] then pr else W (last xs))"

text \<open>
  \<open>same_out R m m'\<close>: the memories \<open>m\<close> and \<open>m'\<close> hold the same byte at every address
  outside \<open>R\<close>.  \<open>links F\<close> are the bytes of the two link cells of the blocks in \<open>F\<close>, and
  \<open>sep F\<close> says that those cells lie inside the address space and do not overlap.
\<close>

definition same_out :: "int set \<Rightarrow> memory \<Rightarrow> memory \<Rightarrow> bool" where
  "same_out R m m' = (\<forall>n. 0 \<le> n \<and> n < 4294967296 \<and> n \<notin> R \<longrightarrow> m' (W n) = m (W n))"

definition sep :: "int set \<Rightarrow> bool" where
  "sep F = (\<forall>x\<in>F. 8 \<le> x \<and> x + 8 \<le> 4294967296 \<and> (\<forall>y\<in>F. x \<noteq> y \<longrightarrow> x + 8 \<le> y \<or> y + 8 \<le> x))"

definition links :: "int set \<Rightarrow> int set" where
  "links F = (\<Union>y\<in>F. {y..<y + 8})"

definition flist_ok :: "state \<Rightarrow> int list \<Rightarrow> bool" where
  "flist_ok s fl \<longleftrightarrow> dseg (mem s) 0 (mp_firstfreeblock s) fl 0 \<and> distinct fl
     \<and> m_freecount s = int (length fl)"

definition frame :: "int set \<Rightarrow> state \<Rightarrow> state \<Rightarrow> bool" where
  "frame R s s' \<longleftrightarrow> same_out R (mem s) (mem s') \<and> mem_brk s' = mem_brk s
     \<and> mem_max_addr s' = mem_max_addr s \<and> p_heap_list s' = p_heap_list s"

text \<open>
  \<open>tagsm m a0 bs\<close>: memory \<open>m\<close> holds the prologue block (two tags of size 8, allocated,
  just below \<open>a0\<close>), then the blocks \<open>bs\<close> from \<open>a0\<close> on, each of at least 16 bytes and a
  multiple of 8, then the epilogue header (size 0, allocated).  \<open>tags_ok\<close> adds the globals:
  \<^verbatim>\<open>p_heap_list\<close> points at the prologue and the break is just past the epilogue header.
  \<open>flist_ok\<close> says that the free list is the doubly linked list \<open>fl\<close>, without repetition,
  and that \<^verbatim>\<open>m_freecount\<close> is its length.  \<open>heap_inv\<close> puts the three views together:
  the blocks on the free list are exactly the blocks whose tag says free, and no two
  neighbouring blocks are both free.
\<close>

definition tagsm :: "memory \<Rightarrow> int \<Rightarrow> blk list \<Rightarrow> bool" where
  "tagsm m a0 bs \<longleftrightarrow> 16 \<le> a0 \<and> 8 dvd a0 \<and> a0 + total bs < 4294967296 \<and> sizes_ok bs
     \<and> GET m (W (a0 - 12)) = tagw 8 True \<and> GET m (W (a0 - 8)) = tagw 8 True
     \<and> tseg m a0 bs \<and> GET m (W (a0 + total bs - 4)) = tagw 0 True"

definition tags_ok :: "state \<Rightarrow> int \<Rightarrow> blk list \<Rightarrow> bool" where
  "tags_ok s a0 bs \<longleftrightarrow> tagsm (mem s) a0 bs \<and> p_heap_list s = W (a0 - 8)
     \<and> mem_brk s = W (a0 + total bs) \<and> a0 + total bs \<le> uint (mem_max_addr s)"

definition heap_inv :: "state \<Rightarrow> int \<Rightarrow> blk list \<Rightarrow> int list \<Rightarrow> bool" where
  "heap_inv s a0 bs fl \<longleftrightarrow> tags_ok s a0 bs \<and> flist_ok s fl
     \<and> set fl = set (free_addrs a0 bs) \<and> no_adj bs"

definition prev_blk :: "blk list \<Rightarrow> blk" where
  "prev_blk pre = (if pre = [] then (8, True) else last pre)"

definition next_blk :: "blk list \<Rightarrow> blk" where
  "next_blk post = (if post = [] then (0, True) else hd post)"

definition coal_pre :: "state \<Rightarrow> int \<Rightarrow> blk list \<Rightarrow> int \<Rightarrow> blk list \<Rightarrow> int list \<Rightarrow> bool" where
  "coal_pre s a0 pre sz post fl \<longleftrightarrow> tags_ok s a0 (pre @ (sz, False) # post) \<and> flist_ok s fl
     \<and> set fl = set (free_addrs a0 (pre @ (sz, True) # post)) \<and> no_adj (pre @ (sz, True) # post)"

fun chain :: "memory \<Rightarrow> addr \<Rightarrow> addr list \<Rightarrow> bool" where
  "chain m p [] = (p = NULL)"
| "chain m p (b # bs) = (p = b \<and> b \<noteq> NULL \<and> chain m (SUCC m b) bs)"

definition first_fit :: "memory \<Rightarrow> 32 word \<Rightarrow> addr list \<Rightarrow> addr" where
  "first_fit m asize bs =
     (case find (\<lambda>b. GET_ALLOC m (HDRP b) = 0 \<and> asize \<le> GET_SIZE m (HDRP b)) bs of
        None \<Rightarrow> NULL | Some b \<Rightarrow> b)"

fun alloc_list :: "int \<Rightarrow> blk list \<Rightarrow> (int \<times> int) list" where
  "alloc_list a [] = []"
| "alloc_list a (b # bs) = (if snd b then [(a, fst b)] else []) @ alloc_list (a + fst b) bs"

definition adj :: "int \<Rightarrow> int" where
  "adj n = (if n \<le> 8 then 16 else 8 * ((n + 15) div 8))"

text \<open>
  The scenario of allocate, free, allocate again with the same size: the two addresses and the
  final state, when both calls return and the first does not fail.
\<close>

definition alloc_free_alloc :: "state \<Rightarrow> 32 word \<Rightarrow> (addr \<times> addr \<times> state) option" where
  "alloc_free_alloc s n =
     (case mm_malloc s n of
        None \<Rightarrow> None
      | Some (p, s1) \<Rightarrow>
          if p = NULL then None
          else (case mm_malloc (mm_free s1 p) n of
                  None \<Rightarrow> None
                | Some (q, s3) \<Rightarrow> Some (p, q, s3)))"

text \<open>
  The walk of \<^verbatim>\<open>mm_checkheap\<close> over the heap: from the prologue block \<^verbatim>\<open>p_heap_list\<close>, block
  after block by \<^verbatim>\<open>NEXT_BLKP\<close>, until a header of size 0.  The walk of the free list is the one
  of \<^verbatim>\<open>find_fit\<close>: from \<^verbatim>\<open>mp_firstfreeblock\<close> along the successor links until \<^verbatim>\<open>NULL\<close>.  In a
  damaged heap either walk can go on for ever, so both take a bound on the number of steps;
  \<open>2 ^ 29\<close> is the number of doubleword-aligned addresses of the machine, more than any heap
  has blocks.
\<close>

fun heap_walk :: "memory \<Rightarrow> nat \<Rightarrow> addr \<Rightarrow> addr list" where
  "heap_walk m 0 bp = []"
| "heap_walk m (Suc k) bp =
     (if GET_SIZE m (HDRP bp) = 0 then [] else bp # heap_walk m k (NEXT_BLKP m bp))"

definition heap_blocks :: "state \<Rightarrow> addr list" where
  "heap_blocks s = heap_walk (mem s) (2 ^ 29) (p_heap_list s)"

fun flist_walk :: "memory \<Rightarrow> nat \<Rightarrow> addr \<Rightarrow> addr list" where
  "flist_walk m 0 p = []"
| "flist_walk m (Suc k) p = (if p = NULL then [] else p # flist_walk m k (SUCC m p))"

definition free_list :: "state \<Rightarrow> addr list" where
  "free_list s = flist_walk (mem s) (2 ^ 29) (mp_firstfreeblock s)"

text \<open>
  No block of the heap walk with the allocated flag 0 has a physical neighbour with the
  allocated flag 0.
\<close>

definition no_adjacent_free :: "state \<Rightarrow> bool" where
  "no_adjacent_free s =
     (\<forall>bp\<in>set (heap_blocks s). GET_ALLOC (mem s) (HDRP bp) = 0 \<longrightarrow>
        GET_ALLOC (mem s) (HDRP (NEXT_BLKP (mem s) bp)) = 1
        \<and> GET_ALLOC (mem s) (HDRP (PREV_BLKP (mem s) bp)) = 1)"

text \<open>
  The states a client can bring the allocator to.  The client starts with \<^verbatim>\<open>mm_init\<close> on a
  provider whose first address is doubleword aligned, and then calls \<^verbatim>\<open>mm_malloc\<close>,
  \<^verbatim>\<open>mm_free\<close> and \<^verbatim>\<open>mm_realloc\<close> and writes into the memory it was given.  \<open>L\<close> keeps the
  books of the client: the addresses it holds, each with the number of bytes it asked for.
  It frees and reallocates only addresses it holds, it writes only to the bytes it asked for,
  and it asks for at most \<open>2 ^ 32 - 16\<close> bytes at a time.
\<close>

inductive reach :: "state \<Rightarrow> (addr \<rightharpoonup> 32 word) \<Rightarrow> bool" where
  r_init: "8 dvd uint (mem_brk s0) \<Longrightarrow> mm_init s0 = (0, s) \<Longrightarrow> reach s Map.empty"
| r_malloc: "reach s L \<Longrightarrow> uint sz \<le> 4294967280 \<Longrightarrow> mm_malloc s sz = Some (p, s')
     \<Longrightarrow> reach s' (if p = NULL then L else L(p \<mapsto> sz))"
| r_free: "reach s L \<Longrightarrow> L p = Some n \<Longrightarrow> reach (mm_free s p) (L(p := None))"
| r_realloc: "reach s L \<Longrightarrow> L p = Some n \<Longrightarrow> uint sz \<le> 4294967280
     \<Longrightarrow> mm_realloc s p sz = Some (Returned q s') \<Longrightarrow> reach s' ((L(p := None))(q \<mapsto> sz))"
| r_store: "reach s L \<Longrightarrow> L p = Some n \<Longrightarrow> d < n
     \<Longrightarrow> reach (s\<lparr>mem := (mem s)(p + d := v)\<rparr>) L"

text \<open>
  Every address the client holds is an allocated block of the heap, large enough for the bytes
  asked for and the 8 bytes of header and footer.
\<close>

definition live_ok :: "int \<Rightarrow> blk list \<Rightarrow> (addr \<rightharpoonup> 32 word) \<Rightarrow> bool" where
  "live_ok a0 bs L =
     (\<forall>p n. L p = Some n \<longrightarrow> (\<exists>y bsz. p = W y \<and> (y, bsz) \<in> set (alloc_list a0 bs) \<and> uint n + 8 \<le> bsz))"

definition INV :: "state \<Rightarrow> (addr \<rightharpoonup> 32 word) \<Rightarrow> bool" where
  "INV s L = (\<exists>a0 bs fl. heap_inv s a0 bs fl \<and> live_ok a0 bs L)"

section \<open>Concrete states\<close>

text \<open>A heap whose provider has nothing left: the break is at the limit and no block is free.\<close>

definition st_full :: state where
  "st_full = \<lparr>mem = (\<lambda>_. 0), mem_brk = 0x2000, mem_max_addr = 0x2000, p_heap_list = 0x1008,
              mp_firstfreeblock = 0, m_freecount = 0\<rparr>"


text \<open>
  A fresh provider: one mebibyte of address space starting at \<open>0x1000\<close>, all bytes zero, and
  the allocator's globals not yet set.  \<open>st1\<close> is the heap that \<^verbatim>\<open>mm_init\<close> makes of it: the
  prologue at \<open>0x1008\<close> and one free block of 4096 bytes at \<open>0x1010\<close>.
\<close>

definition st0 :: state where
  "st0 = \<lparr>mem = (\<lambda>_. 0), mem_brk = 0x1000, mem_max_addr = 0x100000, p_heap_list = 0,
          mp_firstfreeblock = 0, m_freecount = 0\<rparr>"

definition st1 :: state where
  "st1 = snd (mm_init st0)"

text \<open>
  A hand-made free list of two blocks: \<open>0x1010\<close> of 16 bytes, then \<open>0x1030\<close> of 32 bytes.
\<close>

definition st_list :: state where
  "st_list = \<lparr>mem = PUT (PUT (PUT (\<lambda>_. 0) 0x100C 16) 0x1014 0x1030) 0x102C 32,
              mem_brk = 0x2000, mem_max_addr = 0x2000, p_heap_list = 0x1008,
              mp_firstfreeblock = 0x1010, m_freecount = 2\<rparr>"

text \<open>
  The heap \<open>st1\<close> after the first 16 bytes of its free block were placed as an allocated block
  and that block was then marked free again in header and footer, as \<^verbatim>\<open>mm_free\<close> does before it
  calls \<^verbatim>\<open>coalesce\<close>: the block at \<open>0x1010\<close> is followed by the free block at \<open>0x1020\<close>.
\<close>

definition st_freed :: state where
  "st_freed = (place st1 0x1010 16)\<lparr>mem := PUT (PUT (mem (place st1 0x1010 16)) 0x100C 16) 0x1018 16\<rparr>"

text \<open>
  The heap \<open>st1\<close> with its one block of 4096 bytes allocated, which is what a request of 4088
  bytes makes of it: no block is free.
\<close>

definition st_used :: state where
  "st_used = place st1 0x1010 4096"

text \<open>
  The heap \<open>st1\<close> after two blocks of 16 bytes were placed at \<open>0x1010\<close> and \<open>0x1020\<close> and the
  first was freed, with the second then marked free in header and footer: the block at
  \<open>0x1020\<close> lies between the free block at \<open>0x1010\<close> and the free block at \<open>0x1030\<close>.
\<close>

definition st_both :: state where
  "st_both = (mm_free (place (place st1 0x1010 16) 0x1020 16) 0x1010)
     \<lparr>mem := PUT (PUT (mem (mm_free (place (place st1 0x1010 16) 0x1020 16) 0x1010)) 0x101C 16) 0x1028 16\<rparr>"

text \<open>
  The heap \<open>st1\<close> after two requests of \<open>0xFFFFFFF9\<close> bytes, whose adjusted size wraps
  around to 8: \<open>st_ov1\<close> after the first, which returns \<open>0x1010\<close>, \<open>st_ov2\<close> after the second,
  which returns \<open>0x1018\<close>, and \<open>st_ov3\<close> after the first address was freed again.
\<close>

definition st_ov1 :: state where
  "st_ov1 = place st1 0x1010 8"

definition st_ov2 :: state where
  "st_ov2 = place st_ov1 0x1018 8"

definition st_ov3 :: state where
  "st_ov3 = mm_free st_ov2 0x1010"

text \<open>
  The heap \<open>st_ov1\<close> after the client has written three words into the \<open>0xFFFFFFF9\<close> bytes it
  asked for at \<open>0x1010\<close>: at the offsets 4, 12 and 29.  \<^verbatim>\<open>PUT\<close> is four byte stores.
\<close>

definition st_ovw :: state where
  "st_ovw = st_ov1\<lparr>mem := PUT (PUT (PUT (mem st_ov1) 0x1014 0xFF9) 0x101C 0x1031) 0x102D 32\<rparr>"

section \<open>Reading and writing four-byte cells\<close>

lemma unat_m1: "unat (- 1 :: 32 word) = 4294967295"
  by (simp add: unsigned_minus_1_eq_mask mask_eq_exp_minus_1)

lemma GET_PUT_same: "GET (PUT m p v) p = v"
proof (rule bit_word_eqI)
  fix n :: nat
  assume n: "n < LENGTH(32)"
  have c: "n < 8 \<or> (8 \<le> n \<and> n < 16) \<or> (16 \<le> n \<and> n < 24) \<or> (24 \<le> n \<and> n < 32)"
    using n by auto
  show "bit (GET (PUT m p v) p) n = bit v n"
    using c by (auto simp add: GET_def PUT_def bit_simps)
qed

lemma GET_bytes_cong:
  "m' p = m p \<Longrightarrow> m' (p + 1) = m (p + 1) \<Longrightarrow> m' (p + 2) = m (p + 2) \<Longrightarrow> m' (p + 3) = m (p + 3)
   \<Longrightarrow> GET m' p = GET m p"
  by (simp add: GET_def)

lemma word_far:
  fixes d :: "32 word"
  assumes "4 \<le> unat d" "unat d \<le> 4294967292"
  shows "d \<noteq> 0" "d \<noteq> 1" "d \<noteq> 2" "d \<noteq> 3" "d \<noteq> - 1" "d \<noteq> - 2" "d \<noteq> - 3"
  using assms by (auto simp: unat_m1)

lemma word_dist_neq:
  fixes p q :: "32 word"
  assumes "4 \<le> unat (q - p)" "unat (q - p) \<le> 4294967292"
  shows "q \<noteq> p" "q \<noteq> p + 1" "q \<noteq> p + 2" "q \<noteq> p + 3"
        "q + 1 \<noteq> p" "q + 1 \<noteq> p + 1" "q + 1 \<noteq> p + 2" "q + 1 \<noteq> p + 3"
        "q + 2 \<noteq> p" "q + 2 \<noteq> p + 1" "q + 2 \<noteq> p + 2" "q + 2 \<noteq> p + 3"
        "q + 3 \<noteq> p" "q + 3 \<noteq> p + 1" "q + 3 \<noteq> p + 2" "q + 3 \<noteq> p + 3"
proof -
  have e: "\<And>i j :: 32 word. q + i = p + j \<Longrightarrow> q - p = j - i"
    by (simp add: algebra_simps)
  note f = word_far [OF assms]
  show "q \<noteq> p" using f(1) by auto
  show "q \<noteq> p + 1" using e [of 0 1] f(2) by auto
  show "q \<noteq> p + 2" using e [of 0 2] f(3) by auto
  show "q \<noteq> p + 3" using e [of 0 3] f(4) by auto
  show "q + 1 \<noteq> p" using e [of 1 0] f(5) by auto
  show "q + 1 \<noteq> p + 1" using f(1) by auto
  show "q + 1 \<noteq> p + 2" using e [of 1 2] f(2) by auto
  show "q + 1 \<noteq> p + 3" using e [of 1 3] f(3) by auto
  show "q + 2 \<noteq> p" using e [of 2 0] f(6) by auto
  show "q + 2 \<noteq> p + 1" using e [of 2 1] f(5) by auto
  show "q + 2 \<noteq> p + 2" using f(1) by auto
  show "q + 2 \<noteq> p + 3" using e [of 2 3] f(2) by auto
  show "q + 3 \<noteq> p" using e [of 3 0] f(7) by auto
  show "q + 3 \<noteq> p + 1" using e [of 3 1] f(6) by auto
  show "q + 3 \<noteq> p + 2" using e [of 3 2] f(5) by auto
  show "q + 3 \<noteq> p + 3" using f(1) by auto
qed

lemma GET_PUT_disj:
  "4 \<le> unat (q - p) \<Longrightarrow> unat (q - p) \<le> 4294967292 \<Longrightarrow> GET (PUT m p v) q = GET m q"
  apply (rule GET_bytes_cong)
  apply (simp_all add: PUT_def word_dist_neq)
  done

section \<open>Request sizes\<close>

lemma aligned_request:
  fixes e :: "32 word"
  assumes "8 dvd unat e"
  shows "(e div 4) mod 2 = 0" and "(e div 4) * 4 = e"
proof -
  from assms obtain k where k: "unat e = 8 * k" by (auto simp: dvd_def)
  have lt: "8 * k < 4294967296" using unsigned_less [of e, where 'a = nat] k by simp
  have d: "unat (e div 4) = 2 * k" by (simp add: unat_div k)
  have "unat ((e div 4) mod 2) = 0" by (simp add: unat_mod d)
  then show "(e div 4) mod 2 = 0" by (simp add: unsigned_eq_0_iff)
  have "unat ((e div 4) * 4) = unat e"
    using lt by (simp add: unat_word_ariths d k)
  then show "(e div 4) * 4 = e" by (simp add: word_unat_eq_iff)
qed

lemma adjust_size_aligned: "8 dvd unat (adjust_size sz)"
  by (simp add: adjust_size_def DSIZE_def OVERHEAD_def unat_word_ariths dvd_mod)

lemma MAX_sz_aligned: "8 dvd unat a \<Longrightarrow> 8 dvd unat (MAX_sz a CHUNKSIZE)"
  by (simp add: MAX_sz_def CHUNKSIZE_def)

lemma find_fit_loop_NULL: "find_fit_loop s asize NULL = Some NULL"
  by (subst find_fit_loop.simps) simp

section \<open>Allocation when the provider cannot grow the heap\<close>

text \<open>
  Claim C7.  When the search of the free list finds no fit and the provider cannot supply
  the \<^verbatim>\<open>MAX(asize, CHUNKSIZE)\<close> bytes that \<^verbatim>\<open>mm_malloc\<close> then asks for, the call returns
  \<^verbatim>\<open>NULL\<close> and the state it leaves is the state it was given: memory (every header,
  footer and link), the free-list head, the free count and the heap bounds are all unchanged.
\<close>

theorem mm_malloc_grow_fails:
  assumes nofit: "find_fit s (adjust_size sz) = Some NULL"
    and fail: "unat (mem_max_addr s) < unat (mem_brk s) + unat (MAX_sz (adjust_size sz) CHUNKSIZE)"
  shows "mm_malloc s sz = Some (NULL, s)"
proof -
  let ?e = "MAX_sz (adjust_size sz) CHUNKSIZE"
  have al: "8 dvd unat ?e" by (rule MAX_sz_aligned [OF adjust_size_aligned])
  have ext: "extend_heap s (?e div WSIZE) = (NULL, s)"
    using fail aligned_request [OF al]
    by (simp add: extend_heap_def WSIZE_def mem_sbrk_def)
  show ?thesis
    using nofit ext by (simp add: mm_malloc_def Let_def)
qed

theorem mm_malloc_grow_fails_witness: "mm_malloc st_full 100 = Some (NULL, st_full)"
proof -
  have a: "find_fit st_full (adjust_size 100) = Some NULL"
    using find_fit_loop_NULL [of st_full "adjust_size 100"]
    by (simp add: find_fit_def st_full_def NULL_def)
  have b: "unat (mem_max_addr st_full)
            < unat (mem_brk st_full) + unat (MAX_sz (adjust_size 100) CHUNKSIZE)"
    by (simp add: st_full_def MAX_sz_def adjust_size_def CHUNKSIZE_def DSIZE_def OVERHEAD_def)
  show ?thesis by (rule mm_malloc_grow_fails [OF a b])
qed

lemma W_0 [simp]: "W 0 = 0" by (simp add: W_def)
lemma W_num [simp]: "W (numeral k) = numeral k" by (simp add: W_def)
lemma W_1 [simp]: "W 1 = 1" by (simp add: W_def)
lemma W_add [simp]: "W a + W b = W (a + b)" by (simp add: W_def)
lemma W_sub [simp]: "W a - W b = W (a - b)" by (simp add: W_def)
lemma W_add_num [simp]: "W a + numeral k = W (a + numeral k)" by (simp add: W_def)
lemma W_sub_num [simp]: "W a - numeral k = W (a - numeral k)" by (simp add: W_def)
lemma W_add_1 [simp]: "W a + 1 = W (a + 1)" by (simp add: W_def)

lemma uint_W: "0 \<le> a \<Longrightarrow> a < 4294967296 \<Longrightarrow> uint (W a) = a"
  by (simp add: W_def uint_word_of_int take_bit_eq_mod)

lemma unat_W: "0 \<le> a \<Longrightarrow> a < 4294967296 \<Longrightarrow> unat (W a) = nat a"
  by (simp add: unat_eq_nat_uint uint_W)

lemma W_uint [simp]: "W (uint w) = w" by (simp add: W_def)

lemma W_eq: "0 \<le> a \<Longrightarrow> a < 4294967296 \<Longrightarrow> 0 \<le> b \<Longrightarrow> b < 4294967296 \<Longrightarrow> (W a = W b) = (a = b)"
  by (metis uint_W)

lemma W_eq_0: "0 \<le> a \<Longrightarrow> a < 4294967296 \<Longrightarrow> (W a = 0) = (a = 0)"
  using W_eq [of a 0] by simp

lemma W_le: "0 \<le> a \<Longrightarrow> a < 4294967296 \<Longrightarrow> 0 \<le> b \<Longrightarrow> b < 4294967296 \<Longrightarrow> (W a \<le> W b) = (a \<le> b)"
  by (simp add: word_le_def uint_W)

lemma W_less: "0 \<le> a \<Longrightarrow> a < 4294967296 \<Longrightarrow> 0 \<le> b \<Longrightarrow> b < 4294967296 \<Longrightarrow> (W a < W b) = (a < b)"
  by (simp add: word_less_def uint_W)

lemma uint_W_diff:
  assumes "0 \<le> a" "a < 4294967296" "0 \<le> b" "b < 4294967296"
  shows "uint (W (b - a)) = (if a \<le> b then b - a else 4294967296 + b - a)"
proof (cases "a \<le> b")
  case True
  then have "uint (W (b - a)) = b - a" using assms by (intro uint_W) auto
  then show ?thesis using True by simp
next
  case False
  have "W (b - a) = W (4294967296 + b - a)" by (simp add: W_def)
  moreover have "uint (W (4294967296 + b - a)) = 4294967296 + b - a"
    using False assms by (intro uint_W) auto
  ultimately show ?thesis using False assms by simp
qed

lemma GET_PUT_W:
  assumes "a + 4 \<le> b \<or> b + 4 \<le> a" "0 \<le> a" "a + 4 \<le> 4294967296" "0 \<le> b" "b + 4 \<le> 4294967296"
  shows "GET (PUT m (W a) v) (W b) = GET m (W b)"
proof (rule GET_PUT_disj)
  have "uint (W (b - a)) = (if a \<le> b then b - a else 4294967296 + b - a)"
    using assms by (intro uint_W_diff) auto
  then have r: "4 \<le> uint (W (b - a)) \<and> uint (W (b - a)) \<le> 4294967292"
    using assms by (auto split: if_splits)
  have u: "unat (W b - W a) = nat (uint (W (b - a)))"
    by (simp only: W_sub unat_eq_nat_uint)
  show "4 \<le> unat (W b - W a)" "unat (W b - W a) \<le> 4294967292"
    using r unfolding u by linarith+
qed

lemma bit7i: "bit (7 :: int) n \<longleftrightarrow> n < 3"
proof -
  have e: "(7 :: int) = mask 3" by (simp add: mask_eq_exp_minus_1)
  show ?thesis unfolding e by (auto simp add: bit_mask_iff)
qed

lemma bitm8i: "bit (- 8 :: int) n \<longleftrightarrow> 3 \<le> n"
proof -
  have e: "(- 8 :: int) = NOT (mask 3)" by (simp add: mask_eq_exp_minus_1)
  show ?thesis unfolding e by (auto simp add: bit_not_iff bit_mask_iff)
qed

lemma low3:
  fixes x :: "32 word"
  assumes "x AND 7 = 0"
  shows "bit x n \<Longrightarrow> 3 \<le> n"
proof -
  assume bx: "bit x n"
  have "\<not> bit (x AND 7) n" using assms by simp
  then have "\<not> n < 3" using bx by (auto simp add: bit_and_iff bit7i)
  then show ?thesis by simp
qed

lemma al1:
  fixes x :: "32 word"
  assumes "x AND 7 = 0"
  shows "(x OR 1) AND - 8 = x" "(x OR 1) AND 1 = 1" "x AND - 8 = x" "x AND 1 = 0"
proof -
  note d = low3 [OF assms]
  show "(x OR 1) AND - 8 = x"
    by (rule bit_word_eqI) (auto simp: bit_and_iff bit_or_iff bitm8i bit_1_iff dest: d)
  show "(x OR 1) AND 1 = 1"
    by (rule bit_word_eqI) (auto simp: bit_and_iff bit_or_iff bit_1_iff)
  show "x AND - 8 = x"
    by (rule bit_word_eqI) (auto simp: bit_and_iff bitm8i dest: d)
  show "x AND 1 = 0"
    by (rule bit_word_eqI) (auto simp: bit_and_iff bit_1_iff dest: d)
qed

lemma al_dvd: "8 dvd unat (x :: 32 word) \<longleftrightarrow> x AND 7 = 0"
  using and_mask_dvd_nat [of 3 x] by (simp add: mask_eq_exp_minus_1)

lemma W_aligned: "8 dvd a \<Longrightarrow> W a AND 7 = 0"
proof -
  assume d: "8 dvd a"
  have "uint (W a) = a mod 4294967296"
    by (simp add: W_def uint_word_of_int take_bit_eq_mod)
  moreover have "8 dvd a mod 4294967296" using d by (simp add: dvd_mod)
  ultimately have "8 dvd uint (W a)" by simp
  then have "2 ^ 3 dvd uint (W a)" by simp
  then have "W a AND mask 3 = 0" by (simp only: and_mask_dvd)
  then show ?thesis by (simp add: mask_eq_exp_minus_1)
qed

lemma size_mask_aligned: "8 dvd uint ((x :: 32 word) AND - 8)"
proof -
  have "(x AND - 8) AND 7 = 0"
    by (rule bit_word_eqI) (auto simp: bit_and_iff bitm8i bit7i)
  then have "(x AND - 8) AND mask 3 = 0" by (simp add: mask_eq_exp_minus_1)
  then have "2 ^ 3 dvd uint (x AND - 8)" by (simp only: and_mask_dvd)
  then show ?thesis by simp
qed

lemma GET_SIZE_tag: "GET m p = tagw sz al \<Longrightarrow> 8 dvd sz \<Longrightarrow> GET_SIZE m p = W sz"
  using al1 [OF W_aligned, of sz]
  by (simp add: GET_SIZE_def tagw_def PACK_def)

lemma GET_ALLOC_tag:
  "GET m p = tagw sz al \<Longrightarrow> 8 dvd sz \<Longrightarrow> GET_ALLOC m p = (if al then 1 else 0)"
  using al1 [OF W_aligned, of sz]
  by (simp add: GET_ALLOC_def tagw_def PACK_def)

lemma PACK_tag: "PACK (W sz) 1 = tagw sz True" "PACK (W sz) 0 = tagw sz False"
  by (simp_all add: tagw_def)

subsection \<open>Frames\<close>

lemma same_out_refl [simp]: "same_out R m m"
  by (simp add: same_out_def)

lemma same_out_trans: "same_out R m m' \<Longrightarrow> same_out R' m' m'' \<Longrightarrow> same_out (R \<union> R') m m''"
  by (simp add: same_out_def)

lemma same_out_mono: "same_out R m m' \<Longrightarrow> R \<subseteq> R' \<Longrightarrow> same_out R' m m'"
  by (auto simp add: same_out_def)

lemma W_surj: "\<exists>n. 0 \<le> n \<and> n < 4294967296 \<and> w = W n"
proof -
  have "0 \<le> uint w" "uint w < 4294967296" "w = W (uint w)"
    using uint_lt2p [of w] by simp_all
  then show ?thesis by blast
qed

lemma PUT_same_out:
  assumes "0 \<le> c" "c + 4 \<le> 4294967296"
  shows "same_out {c..<c + 4} m (PUT m (W c) v)"
proof -
  have "\<And>n. 0 \<le> n \<Longrightarrow> n < 4294967296 \<Longrightarrow> n \<notin> {c..<c + 4} \<Longrightarrow>
      W n \<noteq> W c \<and> W n \<noteq> W (c + 1) \<and> W n \<noteq> W (c + 2) \<and> W n \<noteq> W (c + 3)"
    using assms by (auto simp: W_eq)
  then show ?thesis
    by (simp add: same_out_def PUT_def)
qed

lemma GET_same_out:
  assumes "same_out R m m'" "0 \<le> c" "c + 4 \<le> 4294967296" "\<forall>n. c \<le> n \<and> n < c + 4 \<longrightarrow> n \<notin> R"
  shows "GET m' (W c) = GET m (W c)"
proof (rule GET_bytes_cong)
  have n: "c \<notin> R" "c + 1 \<notin> R" "c + 2 \<notin> R" "c + 3 \<notin> R"
    using assms(4) by auto
  show "m' (W c) = m (W c)" using assms n by (simp add: same_out_def)
  show "m' (W c + 1) = m (W c + 1)" using assms n by (simp add: same_out_def)
  show "m' (W c + 2) = m (W c + 2)" using assms n by (simp add: same_out_def)
  show "m' (W c + 3) = m (W c + 3)" using assms n by (simp add: same_out_def)
qed

lemma SUC_PTR_W [simp]: "SUC_PTR (W a) = W (a + 4)"
  by (simp add: SUC_PTR_def WSIZE_def)

lemma sepD:
  assumes "sep F" "x \<in> F"
  shows "0 \<le> x" "8 \<le> x" "x + 8 \<le> 4294967296" "x < 4294967296" "W x \<noteq> 0"
proof -
  show a: "8 \<le> x" "x + 8 \<le> 4294967296" using assms by (auto simp: sep_def)
  then show "0 \<le> x" "x < 4294967296" by auto
  then show "W x \<noteq> 0" using a by (simp add: W_eq_0)
qed

lemma sep_apart: "sep F \<Longrightarrow> x \<in> F \<Longrightarrow> y \<in> F \<Longrightarrow> x \<noteq> y \<Longrightarrow> x + 8 \<le> y \<or> y + 8 \<le> x"
  by (auto simp: sep_def)

lemma sep_subset: "sep F \<Longrightarrow> G \<subseteq> F \<Longrightarrow> sep G"
  by (auto simp: sep_def)

lemma dseg_frame:
  assumes "same_out R m m'"
    and "\<forall>y\<in>set xs. 0 \<le> y \<and> y + 8 \<le> 4294967296 \<and> (\<forall>n. y \<le> n \<and> n < y + 8 \<longrightarrow> n \<notin> R)"
  shows "dseg m' pr p xs q = dseg m pr p xs q"
  using assms(2)
proof (induction xs arbitrary: pr p)
  case Nil
  show ?case by simp
next
  case (Cons x xs)
  have a: "GET m' (W x) = GET m (W x)"
    using Cons.prems by (intro GET_same_out [OF assms(1)]) auto
  have b: "GET m' (W (x + 4)) = GET m (W (x + 4))"
    using Cons.prems by (intro GET_same_out [OF assms(1)]) auto
  show ?case using Cons a b by (simp add: PREV_def SUCC_def)
qed

lemma dseg_PUT_other:
  assumes "0 \<le> c" "c + 4 \<le> 4294967296"
    and "\<forall>y\<in>set xs. 0 \<le> y \<and> y + 8 \<le> 4294967296 \<and> (c + 4 \<le> y \<or> y + 8 \<le> c)"
  shows "dseg (PUT m (W c) v) pr p xs q = dseg m pr p xs q"
  using assms by (intro dseg_frame [OF PUT_same_out]) auto

lemma dseg_append:
  "dseg m pr p (ys @ zs) q = (\<exists>r. dseg m pr p ys r \<and> dseg m (lastp pr ys) r zs q)"
proof (induction ys arbitrary: pr p)
  case Nil
  show ?case by (simp add: lastp_def)
next
  case (Cons y ys)
  show ?case by (simp add: Cons lastp_def)
qed

lemma dseg_start: "dseg m pr p xs q \<Longrightarrow> xs \<noteq> [] \<Longrightarrow> p = W (hd xs)"
  by (cases xs) auto

lemma dseg_set_last:
  assumes "dseg m pr p xs q" "xs \<noteq> []" "distinct xs" "sep (set xs)"
  shows "dseg (PUT m (W (last xs + 4)) q') pr p xs q'"
  using assms
proof (induction xs arbitrary: pr p)
  case Nil
  then show ?case by simp
next
  case (Cons x xs)
  note s = sepD [OF Cons.prems(4), of x, simplified]
  show ?case
  proof (cases "xs = []")
    case True
    have "GET (PUT m (W (x + 4)) q') (W x) = GET m (W x)"
      using s by (intro GET_PUT_W) auto
    then show ?thesis using Cons.prems True by (simp add: PREV_def SUCC_def GET_PUT_same)
  next
    case False
    then have l: "last xs \<in> set xs" by simp
    then have ne: "last xs \<noteq> x" using Cons.prems by auto
    note t = sepD [OF Cons.prems(4), of "last xs"] 
    have ap: "x + 8 \<le> last xs \<or> last xs + 8 \<le> x"
      using sep_apart [OF Cons.prems(4), of x "last xs"] l ne by auto
    have a: "GET (PUT m (W (last xs + 4)) q') (W x) = GET m (W x)"
      using s t l ap by (intro GET_PUT_W) auto
    have b: "GET (PUT m (W (last xs + 4)) q') (W (x + 4)) = GET m (W (x + 4))"
      using s t l ap by (intro GET_PUT_W) auto
    have sp: "sep (set xs)" using Cons.prems(4) by (rule sep_subset) auto
    have "dseg (PUT m (W (last xs + 4)) q') (W x) (SUCC m (W x)) xs q'"
      using Cons.prems False sp by (intro Cons.IH) auto
    then show ?thesis using Cons.prems False a b by (simp add: PREV_def SUCC_def)
  qed
qed

lemma dseg_set_prev:
  assumes "dseg m pr p (x # xs) q" "distinct (x # xs)" "sep (set (x # xs))"
  shows "dseg (PUT m (W x) pr') pr' p (x # xs) q"
proof -
  note s = sepD [OF assms(3), of x, simplified]
  have a: "GET (PUT m (W x) pr') (W (x + 4)) = GET m (W (x + 4))"
    using s by (intro GET_PUT_W) auto
  have "\<forall>y\<in>set xs. 0 \<le> y \<and> y + 8 \<le> 4294967296 \<and> (x + 4 \<le> y \<or> y + 8 \<le> x)"
  proof
    fix y assume y: "y \<in> set xs"
    then have "y \<noteq> x" using assms(2) by auto
    then have "x + 8 \<le> y \<or> y + 8 \<le> x"
      using sep_apart [OF assms(3), of x y] y by auto
    then show "0 \<le> y \<and> y + 8 \<le> 4294967296 \<and> (x + 4 \<le> y \<or> y + 8 \<le> x)"
      using sepD [OF assms(3), of y] y by auto
  qed
  then have "dseg (PUT m (W x) pr') (W x) (SUCC m (W x)) xs q = dseg m (W x) (SUCC m (W x)) xs q"
    using s by (intro dseg_PUT_other) auto
  then show ?thesis using assms(1) a by (simp add: PREV_def SUCC_def GET_PUT_same)
qed

lemma frame_refl [simp]: "frame R s s"
  by (simp add: frame_def)

lemma frame_trans: "frame R s s' \<Longrightarrow> frame R' s' s'' \<Longrightarrow> frame (R \<union> R') s s''"
  by (auto simp: frame_def intro: same_out_trans)

lemma frame_mono: "frame R s s' \<Longrightarrow> R \<subseteq> R' \<Longrightarrow> frame R' s s'"
  by (auto simp: frame_def intro: same_out_mono)

lemma PUT_link_same_out:
  assumes "y \<in> F" "c = y \<or> c = y + 4" "0 \<le> y" "y + 8 \<le> 4294967296"
  shows "same_out (links F) m (PUT m (W c) v)"
proof -
  have "same_out {c..<c + 4} m (PUT m (W c) v)"
    using assms by (intro PUT_same_out) auto
  moreover have "{c..<c + 4} \<subseteq> links F"
    using assms by (auto simp: links_def)
  ultimately show ?thesis by (rule same_out_mono)
qed

lemma same_out_links2:
  assumes "same_out (links F) m m1" "same_out (links F) m1 m2"
  shows "same_out (links F) m m2"
  using same_out_trans [OF assms] by simp

lemma dseg_links_frame:
  assumes "same_out (links F) m m'" "sep (F \<union> set xs)" "F \<inter> set xs = {}"
  shows "dseg m' pr p xs q = dseg m pr p xs q"
proof (rule dseg_frame [OF assms(1)], intro ballI conjI allI impI)
  fix y assume y: "y \<in> set xs"
  then have yF: "y \<in> F \<union> set xs" by simp
  show "0 \<le> y" "y + 8 \<le> 4294967296" using sepD [OF assms(2) yF] by auto
  fix n assume n: "y \<le> n \<and> n < y + 8"
  show "n \<notin> links F"
  proof
    assume "n \<in> links F"
    then obtain z where z: "z \<in> F" "z \<le> n" "n < z + 8" by (auto simp: links_def)
    then have "z \<noteq> y" using y assms(3) by auto
    then have "z + 8 \<le> y \<or> y + 8 \<le> z"
      using sep_apart [OF assms(2), of z y] z y by auto
    then show False using z n by auto
  qed
qed

lemma PUT_link_step:
  assumes "same_out (links F) m m1" "y \<in> F" "c = y \<or> c = y + 4" "0 \<le> y" "y + 8 \<le> 4294967296"
  shows "same_out (links F) m (PUT m1 (W c) v)"
  using assms(1) PUT_link_same_out [OF assms(2-5)] by (rule same_out_links2)

lemma allocate_block_ok:
  assumes fl: "flist_ok s fl" and x: "x \<in> set fl" and sp: "sep (set fl)"
  shows "flist_ok (allocate_block s (W x)) (remove1 x fl)
       \<and> frame (links (set fl)) s (allocate_block s (W x))"
proof -
  let ?m = "mem s"
  from fl have ds: "dseg ?m 0 (mp_firstfreeblock s) fl 0" and di: "distinct fl"
    and cnt: "m_freecount s = int (length fl)" by (auto simp: flist_ok_def)
  from x obtain ys zs where split: "fl = ys @ x # zs" by (auto dest: split_list)
  with di have nx: "x \<notin> set ys" "x \<notin> set zs" and dy: "distinct ys" and dz: "distinct zs"
    and yz: "set ys \<inter> set zs = {}" by auto
  have rem: "remove1 x fl = ys @ zs" using split nx by (simp add: remove1_append)
  from ds split obtain r where r: "dseg ?m 0 (mp_firstfreeblock s) ys r"
      "dseg ?m (lastp 0 ys) r (x # zs) 0"
    by (auto simp: dseg_append)
  then have rx: "r = W x" and pv: "PREV ?m (W x) = lastp 0 ys"
    and dzs: "dseg ?m (W x) (SUCC ?m (W x)) zs 0" by auto
  note sx = sepD [OF sp x]
  have spy: "sep (set ys)" and spz: "sep (set zs)" using sp split by (auto intro: sep_subset)
  have xc: "same_out (links (set fl)) m' (PUT (PUT m' (W (x + 4)) 0) (W x) 0)"
           "same_out (links (set fl)) m' (PUT (PUT m' (W x) 0) (W (x + 4)) 0)" for m'
    using x sx by (auto intro!: PUT_link_step [of _ _ _ x] PUT_link_same_out [of x])
  have fr_ys: "same_out (links {x}) m1 m2 \<Longrightarrow> dseg m2 pr p ys q = dseg m1 pr p ys q" for m1 m2 pr p q
    using nx split by (intro dseg_links_frame) (auto intro: sep_subset [OF sp])
  have fr_zs: "same_out (links {x}) m1 m2 \<Longrightarrow> dseg m2 pr p zs q = dseg m1 pr p zs q" for m1 m2 pr p q
    using nx split by (intro dseg_links_frame) (auto intro: sep_subset [OF sp])
  have xc1: "same_out (links {x}) m' (PUT (PUT m' (W (x + 4)) 0) (W x) 0)"
            "same_out (links {x}) m' (PUT (PUT m' (W x) 0) (W (x + 4)) 0)" for m'
    using sx by (auto intro!: PUT_link_step [of _ _ _ x] PUT_link_same_out [of x])
  consider (sole) "ys = []" "zs = []" | (tail) "ys \<noteq> []" "zs = []"
    | (head) "ys = []" "zs \<noteq> []" | (mid) "ys \<noteq> []" "zs \<noteq> []" by blast
  then show ?thesis
  proof cases
    case sole
    have st: "allocate_block s (W x)
        = s\<lparr>m_freecount := 0, mem := PUT (PUT ?m (W x) 0) (W (x + 4)) 0, mp_firstfreeblock := 0\<rparr>"
      using cnt split sole
      by (simp add: allocate_block_def Let_def set_PREV_def set_SUCC_def NULL_def)
    show ?thesis using sole rem xc(2) [of ?m]
      by (simp add: st flist_ok_def frame_def)
  next
    case tail
    have np: "SUCC ?m (W x) = 0" using dzs tail by simp
    have pp: "PREV ?m (W x) = W (last ys)" using pv tail by (simp add: lastp_def)
    have ly: "last ys \<in> set fl" using tail split by simp
    note sl = sepD [OF sp ly]
    have c: "m_freecount s - 1 \<noteq> 0" "m_freecount s - 1 \<noteq> - 1"
      using cnt split tail by (cases ys; simp)+
    let ?m1 = "PUT ?m (W (last ys + 4)) 0"
    have st: "allocate_block s (W x)
        = s\<lparr>m_freecount := m_freecount s - 1, mem := PUT (PUT ?m1 (W (x + 4)) 0) (W x) 0\<rparr>"
      using c np pp
      by (simp add: allocate_block_def Let_def set_PREV_def set_SUCC_def NULL_def)
    have "dseg ?m1 0 (mp_firstfreeblock s) ys 0"
      using r(1) tail(1) dy spy by (rule dseg_set_last)
    then have d: "dseg (PUT (PUT ?m1 (W (x + 4)) 0) (W x) 0) 0 (mp_firstfreeblock s) ys 0"
      by (simp add: fr_ys [OF xc1(1)])
    have "same_out (links (set fl)) ?m ?m1"
      using ly sl by (intro PUT_link_same_out [of "last ys"]) auto
    then have f: "same_out (links (set fl)) ?m (PUT (PUT ?m1 (W (x + 4)) 0) (W x) 0)"
      using xc(1) [of ?m1] by (rule same_out_links2)
    show ?thesis using tail rem d f di cnt split
      by (simp add: st flist_ok_def frame_def)
  next
    case head
    then obtain z zs' where z: "zs = z # zs'" by (cases zs) auto
    have zf: "z \<in> set fl" using split z by simp
    note sz = sepD [OF sp zf]
    have np: "SUCC ?m (W x) = W z" using dzs z by simp
    have pp: "PREV ?m (W x) = 0" using pv head by (simp add: lastp_def)
    have c: "m_freecount s - 1 \<noteq> 0" "m_freecount s - 1 \<noteq> - 1"
      using cnt split z by simp_all
    let ?m1 = "PUT ?m (W z) 0"
    have st: "allocate_block s (W x)
        = s\<lparr>m_freecount := m_freecount s - 1, mp_firstfreeblock := W z,
             mem := PUT (PUT ?m1 (W x) 0) (W (x + 4)) 0\<rparr>"
      using c np pp sz
      by (simp add: allocate_block_def Let_def set_PREV_def set_SUCC_def NULL_def)
    have "dseg ?m1 0 (W z) (z # zs') 0"
      using dzs np dz spz unfolding z by (intro dseg_set_prev) auto
    then have d: "dseg (PUT (PUT ?m1 (W x) 0) (W (x + 4)) 0) 0 (W z) zs 0"
      unfolding z [symmetric] by (simp add: fr_zs [OF xc1(2)])
    have "same_out (links (set fl)) ?m ?m1"
      using zf sz by (intro PUT_link_same_out [of z]) auto
    then have f: "same_out (links (set fl)) ?m (PUT (PUT ?m1 (W x) 0) (W (x + 4)) 0)"
      using xc(2) [of ?m1] by (rule same_out_links2)
    show ?thesis using head rem d f di cnt split
      by (simp add: st flist_ok_def frame_def)
  next
    case mid
    then obtain z zs' where z: "zs = z # zs'" by (cases zs) auto
    have zf: "z \<in> set fl" using split z by simp
    note sz = sepD [OF sp zf]
    have ly: "last ys \<in> set fl" using mid split by simp
    have lys: "last ys \<in> set ys" using mid by simp
    note sl = sepD [OF sp ly]
    have np: "SUCC ?m (W x) = W z" using dzs z by simp
    have pp: "PREV ?m (W x) = W (last ys)" using pv mid by (simp add: lastp_def)
    have c: "m_freecount s - 1 \<noteq> 0" "m_freecount s - 1 \<noteq> - 1"
      using cnt split z by simp_all
    let ?m1 = "PUT ?m (W (last ys + 4)) (W z)"
    let ?m2 = "PUT ?m1 (W z) (W (last ys))"
    have st: "allocate_block s (W x)
        = s\<lparr>m_freecount := m_freecount s - 1, mem := PUT (PUT ?m2 (W (x + 4)) 0) (W x) 0\<rparr>"
      using c np pp sz sl
      by (simp add: allocate_block_def Let_def set_PREV_def set_SUCC_def NULL_def)
    have a1: "dseg ?m1 0 (mp_firstfreeblock s) ys (W z)"
      using r(1) mid(1) dy spy by (rule dseg_set_last)
    have "same_out (links {z}) ?m1 ?m2" using sz by (intro PUT_link_same_out [of z]) auto
    then have a2: "dseg ?m2 0 (mp_firstfreeblock s) ys (W z)"
      using a1 yz z split by (subst dseg_links_frame [of "{z}"]) (auto intro: sep_subset [OF sp])
    have "same_out (links {last ys}) ?m ?m1"
      using sl by (intro PUT_link_same_out [of "last ys"]) auto
    then have b1: "dseg ?m1 (W x) (W z) zs 0"
      using dzs np yz lys split
      by (subst dseg_links_frame [of "{last ys}"]) (auto intro: sep_subset [OF sp])
    have b2: "dseg ?m2 (W (last ys)) (W z) zs 0"
      using b1 dz spz unfolding z by (intro dseg_set_prev) auto
    have "dseg ?m2 0 (mp_firstfreeblock s) (ys @ zs) 0"
      using a2 b2 mid by (auto simp: dseg_append lastp_def)
    then have d: "dseg (PUT (PUT ?m2 (W (x + 4)) 0) (W x) 0) 0 (mp_firstfreeblock s) (ys @ zs) 0"
      using fr_ys [OF xc1(1)] fr_zs [OF xc1(1)] by (simp add: dseg_append)
    have f1: "same_out (links (set fl)) ?m ?m1"
      using ly sl by (intro PUT_link_same_out [of "last ys"]) auto
    have "same_out (links (set fl)) ?m ?m2"
      by (rule PUT_link_step [OF f1 zf]) (use sz in auto)
    then have f: "same_out (links (set fl)) ?m (PUT (PUT ?m2 (W (x + 4)) 0) (W x) 0)"
      using xc(1) [of ?m2] by (rule same_out_links2)
    show ?thesis using mid rem d f di cnt split
      by (simp add: st flist_ok_def frame_def)
  qed
qed

lemma free_block_ok:
  assumes fl: "flist_ok s fl" and x: "x \<notin> set fl" and sp: "sep (insert x (set fl))"
    and ph: "\<forall>y\<in>set fl. W y \<noteq> p_heap_list s"
  shows "flist_ok (free_block s (W x)) (x # fl)
       \<and> frame (links (insert x (set fl))) s (free_block s (W x))"
proof -
  let ?m = "mem s"
  let ?F = "insert x (set fl)"
  from fl have ds: "dseg ?m 0 (mp_firstfreeblock s) fl 0" and di: "distinct fl"
    and cnt: "m_freecount s = int (length fl)" by (auto simp: flist_ok_def)
  have xF: "x \<in> ?F" by simp
  note sx = sepD [OF sp xF]
  let ?m1 = "PUT ?m (W (x + 4)) (mp_firstfreeblock s)"
  let ?m2 = "PUT ?m1 (W x) 0"
  have f1: "same_out (links ?F) ?m ?m1"
    using sx by (intro PUT_link_same_out [of x]) auto
  have f2: "same_out (links ?F) ?m ?m2"
    by (rule PUT_link_step [OF f1 xF]) (use sx in auto)
  have g1: "same_out (links {x}) ?m ?m1"
    using sx by (intro PUT_link_same_out [of x]) auto
  have g2: "same_out (links {x}) ?m ?m2"
    by (rule PUT_link_step [OF g1]) (use sx in auto)
  have sx4: "GET ?m2 (W (x + 4)) = mp_firstfreeblock s"
  proof -
    have "GET ?m2 (W (x + 4)) = GET ?m1 (W (x + 4))"
      using sx by (intro GET_PUT_W) auto
    then show ?thesis by (simp add: GET_PUT_same)
  qed
  show ?thesis
  proof (cases fl)
    case Nil
    then have h0: "mp_firstfreeblock s = 0" using ds by simp
    have st: "free_block s (W x)
        = s\<lparr>m_freecount := m_freecount s + 1, mem := ?m2, mp_firstfreeblock := W x\<rparr>"
      using h0 by (simp add: free_block_def Let_def set_PREV_def set_SUCC_def NULL_def)
    show ?thesis using Nil f2 cnt sx4 h0
      by (simp add: st flist_ok_def frame_def PREV_def SUCC_def GET_PUT_same)
  next
    case (Cons h t)
    then have hh: "mp_firstfreeblock s = W h" using ds by simp
    have hF: "h \<in> ?F" and hfl: "h \<in> set fl" using Cons by simp_all
    note sh = sepD [OF sp hF]
    have hx: "h \<noteq> x" using x hfl by auto
    have ap: "x + 8 \<le> h \<or> h + 8 \<le> x" using sep_apart [OF sp xF hF] hx by auto
    have ne: "W h \<noteq> p_heap_list s" using ph hfl by auto
    let ?m3 = "PUT ?m2 (W h) (W x)"
    have st: "free_block s (W x)
        = s\<lparr>m_freecount := m_freecount s + 1, mem := ?m3, mp_firstfreeblock := W x\<rparr>"
      using hh ne sh by (simp add: free_block_def Let_def set_PREV_def set_SUCC_def NULL_def)
    have f3: "same_out (links ?F) ?m ?m3"
      by (rule PUT_link_step [OF f2 hF]) (use sh in auto)
    have a: "GET ?m3 (W x) = 0"
    proof -
      have "GET ?m3 (W x) = GET ?m2 (W x)"
        using sx sh ap by (intro GET_PUT_W) auto
      then show ?thesis by (simp add: GET_PUT_same)
    qed
    have b: "GET ?m3 (W (x + 4)) = W h"
    proof -
      have "GET ?m3 (W (x + 4)) = GET ?m2 (W (x + 4))"
        using sx sh ap by (intro GET_PUT_W) auto
      then show ?thesis using sx4 hh by simp
    qed
    have "dseg ?m2 0 (W h) fl 0"
      using ds hh x by (subst dseg_links_frame [OF g2]) (auto intro: sep_subset [OF sp])
    then have "dseg ?m3 (W x) (W h) (h # t) 0"
      unfolding Cons using di Cons by (intro dseg_set_prev) (auto intro: sep_subset [OF sp])
    then show ?thesis using Cons f3 cnt a b di x
      by (simp add: st flist_ok_def frame_def PREV_def SUCC_def)
  qed
qed

lemma total_simps [simp]:
  "total [] = 0" "total (b # bs) = fst b + total bs" "total (xs @ ys) = total xs + total ys"
  by (simp_all add: total_def)

lemma sizes_ok_simps [simp]:
  "sizes_ok []" "sizes_ok (b # bs) = (16 \<le> fst b \<and> 8 dvd fst b \<and> sizes_ok bs)"
  "sizes_ok (xs @ ys) = (sizes_ok xs \<and> sizes_ok ys)"
  by (auto simp: sizes_ok_def)

lemma total_nonneg: "sizes_ok bs \<Longrightarrow> 0 \<le> total bs"
  by (induction bs) auto

lemma total_dvd: "sizes_ok bs \<Longrightarrow> 8 dvd total bs"
  by (induction bs) auto

lemma tseg_append: "tseg m a (xs @ ys) = (tseg m a xs \<and> tseg m (a + total xs) ys)"
  by (induction xs arbitrary: a) (auto simp: algebra_simps)

lemma addrs_append: "addrs a (xs @ ys) = addrs a xs @ addrs (a + total xs) ys"
  by (induction xs arbitrary: a) (auto simp: algebra_simps)

lemma free_addrs_append: "free_addrs a (xs @ ys) = free_addrs a xs @ free_addrs (a + total xs) ys"
  by (induction xs arbitrary: a) (auto simp: algebra_simps)

lemma free_addrs_subset: "set (free_addrs a bs) \<subseteq> set (addrs a bs)"
  by (induction bs arbitrary: a) auto

lemma addrs_bounds: "sizes_ok bs \<Longrightarrow> y \<in> set (addrs a bs) \<Longrightarrow> a \<le> y \<and> y + 16 \<le> a + total bs"
proof (induction bs arbitrary: a)
  case Nil
  then show ?case by simp
next
  case (Cons b bs)
  show ?case
  proof (cases "y = a")
    case True
    then show ?thesis using Cons.prems total_nonneg [of bs] by simp
  next
    case False
    then have "y \<in> set (addrs (a + fst b) bs)" using Cons.prems by simp
    then have "a + fst b \<le> y \<and> y + 16 \<le> a + fst b + total bs"
      using Cons.prems by (intro Cons.IH) auto
    then show ?thesis using Cons.prems by simp
  qed
qed

lemma addrs_distinct: "sizes_ok bs \<Longrightarrow> distinct (addrs a bs)"
proof (induction bs arbitrary: a)
  case Nil
  then show ?case by simp
next
  case (Cons b bs)
  have "a \<notin> set (addrs (a + fst b) bs)"
    using addrs_bounds [of bs a "a + fst b"] Cons.prems by auto
  then show ?case using Cons by simp
qed

lemma free_addrs_distinct: "sizes_ok bs \<Longrightarrow> distinct (free_addrs a bs)"
proof (induction bs arbitrary: a)
  case Nil
  then show ?case by simp
next
  case (Cons b bs)
  have "a \<notin> set (addrs (a + fst b) bs)"
    using addrs_bounds [of bs a "a + fst b"] Cons.prems by auto
  then have "a \<notin> set (free_addrs (a + fst b) bs)"
    using free_addrs_subset by blast
  then show ?case using Cons by simp
qed

lemma addrs_apart:
  "sizes_ok bs \<Longrightarrow> x \<in> set (addrs a bs) \<Longrightarrow> y \<in> set (addrs a bs) \<Longrightarrow> x \<noteq> y
   \<Longrightarrow> x + 16 \<le> y \<or> y + 16 \<le> x"
proof (induction bs arbitrary: a)
  case Nil
  then show ?case by simp
next
  case (Cons b bs)
  have t: "\<And>z. z \<in> set (addrs (a + fst b) bs) \<Longrightarrow> a + 16 \<le> z"
    using addrs_bounds [of bs _ "a + fst b"] Cons.prems(1) by fastforce
  show ?case
  proof (cases "x = a \<or> y = a")
    case True
    then show ?thesis using Cons.prems t by auto
  next
    case False
    then show ?thesis using Cons.prems by (intro Cons.IH) auto
  qed
qed

lemma addrs_sep:
  assumes "sizes_ok bs" "8 \<le> a" "a + total bs \<le> 4294967296"
  shows "sep (set (addrs a bs))"
  unfolding sep_def
proof (intro ballI conjI impI)
  fix x assume x: "x \<in> set (addrs a bs)"
  note b = addrs_bounds [OF assms(1) x]
  show "8 \<le> x" "x + 8 \<le> 4294967296" using b assms by auto
  fix y assume "y \<in> set (addrs a bs)" "x \<noteq> y"
  then show "x + 8 \<le> y \<or> y + 8 \<le> x"
    using addrs_apart [OF assms(1) x] by fastforce
qed

text \<open>A write away from the tag cells of a segment leaves the segment as it is.\<close>

lemma tseg_frame_coarse:
  assumes "same_out R m m'" "sizes_ok bs" "4 \<le> a" "a + total bs \<le> 4294967296"
    and "\<forall>n\<in>R. n < a - 4 \<or> a + total bs - 4 \<le> n"
  shows "tseg m' a bs = tseg m a bs"
  using assms(2-5)
proof (induction bs arbitrary: a)
  case Nil
  show ?case by simp
next
  case (Cons b bs)
  have tn: "0 \<le> total bs" using Cons.prems by (intro total_nonneg) simp
  have h: "GET m' (W (a - 4)) = GET m (W (a - 4))"
    using Cons.prems tn by (intro GET_same_out [OF assms(1)]) fastforce+
  have f: "GET m' (W (a + fst b - 8)) = GET m (W (a + fst b - 8))"
    using Cons.prems tn by (intro GET_same_out [OF assms(1)]) fastforce+
  have "tseg m' (a + fst b) bs = tseg m (a + fst b) bs"
    using Cons.prems tn by (intro Cons.IH) fastforce+
  then show ?case using h f by simp
qed

text \<open>Writes to the link cells of blocks of the segment leave its tags as they are.\<close>

lemma tseg_frame_links:
  assumes "same_out (links F) m m'" "sizes_ok bs" "4 \<le> a" "a + total bs \<le> 4294967296"
    and "\<forall>y\<in>F. y + 12 \<le> a \<or> a + total bs \<le> y \<or> y \<in> set (addrs a bs)"
  shows "tseg m' a bs = tseg m a bs"
  using assms(2-5)
proof (induction bs arbitrary: a)
  case Nil
  show ?case by simp
next
  case (Cons b bs)
  have tn: "0 \<le> total bs" using Cons.prems by (intro total_nonneg) simp
  have far: "\<And>y. y \<in> F \<Longrightarrow> y + 12 \<le> a \<or> a + fst b + total bs \<le> y \<or> y = a
      \<or> (a + fst b \<le> y \<and> y + 16 \<le> a + fst b + total bs)"
    using Cons.prems(4) addrs_bounds [of bs _ "a + fst b"] Cons.prems(1) by fastforce
  have h: "GET m' (W (a - 4)) = GET m (W (a - 4))"
  proof (rule GET_same_out [OF assms(1)], goal_cases)
    case 3
    show ?case using far tn Cons.prems(1) by (fastforce simp: links_def)
  qed (use Cons.prems tn in auto)
  have f: "GET m' (W (a + fst b - 8)) = GET m (W (a + fst b - 8))"
  proof (rule GET_same_out [OF assms(1)], goal_cases)
    case 3
    show ?case using far tn Cons.prems(1) by (fastforce simp: links_def)
  qed (use Cons.prems tn in auto)
  have "tseg m' (a + fst b) bs = tseg m (a + fst b) bs"
  proof (rule Cons.IH, goal_cases)
    case 4
    show ?case
    proof
      fix y assume y: "y \<in> F"
      from Cons.prems(4) y have "y + 12 \<le> a \<or> a + total (b # bs) \<le> y \<or> y \<in> set (addrs a (b # bs))"
        by blast
      then show "y + 12 \<le> a + fst b \<or> a + fst b + total bs \<le> y \<or> y \<in> set (addrs (a + fst b) bs)"
        using Cons.prems(1) by auto
    qed
  qed (use Cons.prems tn in auto)
  then show ?case using h f by simp
qed

lemma HDRP_W [simp]: "HDRP (W a) = W (a - 4)"
  by (simp add: HDRP_def WSIZE_def)

lemma NEXT_BLKP_W: "GET m (W (x - 4)) = tagw sz al \<Longrightarrow> 8 dvd sz \<Longrightarrow> NEXT_BLKP m (W x) = W (x + sz)"
  using GET_SIZE_tag [of m "W (x - 4)" sz al] by (simp add: NEXT_BLKP_def WSIZE_def)

lemma FTRP_W: "GET m (W (x - 4)) = tagw sz al \<Longrightarrow> 8 dvd sz \<Longrightarrow> FTRP m (W x) = W (x + sz - 8)"
  using GET_SIZE_tag [of m "W (x - 4)" sz al] by (simp add: FTRP_def DSIZE_def)

lemma PREV_BLKP_W: "GET m (W (x - 8)) = tagw sz al \<Longrightarrow> 8 dvd sz \<Longrightarrow> PREV_BLKP m (W x) = W (x - sz)"
  using GET_SIZE_tag [of m "W (x - 8)" sz al] by (simp add: PREV_BLKP_def DSIZE_def)

lemma no_adj_append:
  "no_adj (xs @ ys) = (no_adj xs \<and> no_adj ys \<and> (xs \<noteq> [] \<and> ys \<noteq> [] \<longrightarrow> snd (last xs) \<or> snd (hd ys)))"
proof (induction xs rule: no_adj.induct)
  case (1 b1 b2 bs)
  then show ?case by auto
next
  case (2 b)
  then show ?case by (cases ys) auto
next
  case 3
  then show ?case by simp
qed

lemma no_adj_Cons:
  "no_adj (b # bs) = (no_adj bs \<and> (bs \<noteq> [] \<longrightarrow> snd b \<or> snd (hd bs)))"
  by (cases bs) auto

lemma tagsm_bounds:
  assumes "tagsm m a0 (pre @ b # post)"
  shows "16 \<le> a0" "0 \<le> total pre" "0 \<le> total post" "16 \<le> fst b" "8 dvd fst b"
    "8 dvd (a0 + total pre)" "a0 + total pre + fst b + total post < 4294967296"
    "sizes_ok pre" "sizes_ok post"
  using assms total_nonneg [of pre] total_nonneg [of post] total_dvd [of pre]
  by (auto simp: tagsm_def)

lemma tagsm_here:
  assumes "tagsm m a0 (pre @ b # post)" "x = a0 + total pre"
  shows "GET m (W (x - 4)) = tagw (fst b) (snd b)" "GET m (W (x + fst b - 8)) = tagw (fst b) (snd b)"
  using assms by (auto simp: tagsm_def tseg_append)

lemma tagsm_prev_conj:
  assumes "tagsm m a0 (pre @ b # post)" "x = a0 + total pre"
  shows "GET m (W (x - 8)) = tagw (fst (prev_blk pre)) (snd (prev_blk pre))
    \<and> GET m (W (x - fst (prev_blk pre) - 4)) = tagw (fst (prev_blk pre)) (snd (prev_blk pre))
    \<and> 8 dvd fst (prev_blk pre) \<and> 8 \<le> fst (prev_blk pre)
    \<and> (pre \<noteq> [] \<longrightarrow> 16 \<le> fst (prev_blk pre) \<and> fst (prev_blk pre) \<le> total pre)"
proof (cases pre rule: rev_cases)
  case Nil
  then show ?thesis using assms by (simp add: tagsm_def prev_blk_def)
next
  case (snoc ps p)
  have t: "tseg m (a0 + total ps) [p]" "sizes_ok ps" "16 \<le> fst p" "8 dvd fst p"
    using assms(1) snoc by (auto simp: tagsm_def tseg_append)
  have tp: "0 \<le> total ps" using t by (intro total_nonneg)
  have x': "x = a0 + total ps + fst p"
    using assms(2) snoc by auto
  show ?thesis using t snoc tp unfolding x' by (simp add: prev_blk_def)
qed

lemma tagsm_prev:
  assumes "tagsm m a0 (pre @ b # post)" "x = a0 + total pre"
  shows "GET m (W (x - 8)) = tagw (fst (prev_blk pre)) (snd (prev_blk pre))"
    "GET m (W (x - fst (prev_blk pre) - 4)) = tagw (fst (prev_blk pre)) (snd (prev_blk pre))"
    "8 dvd fst (prev_blk pre)" "8 \<le> fst (prev_blk pre)"
    "pre \<noteq> [] \<Longrightarrow> 16 \<le> fst (prev_blk pre) \<and> fst (prev_blk pre) \<le> total pre"
  using tagsm_prev_conj [OF assms] by auto

lemma tagsm_next:
  assumes "tagsm m a0 (pre @ b # post)" "x = a0 + total pre"
  shows "GET m (W (x + fst b - 4)) = tagw (fst (next_blk post)) (snd (next_blk post))"
    "8 dvd fst (next_blk post)"
    "post \<noteq> [] \<Longrightarrow> GET m (W (x + fst b + fst (next_blk post) - 8))
        = tagw (fst (next_blk post)) (snd (next_blk post))
       \<and> 16 \<le> fst (next_blk post) \<and> fst (next_blk post) \<le> total post"
proof -
  have tp: "\<And>q qs. post = q # qs \<Longrightarrow> 0 \<le> total qs"
    using assms(1) by (intro total_nonneg) (simp add: tagsm_def)
  show "GET m (W (x + fst b - 4)) = tagw (fst (next_blk post)) (snd (next_blk post))"
    using assms by (cases post) (auto simp: tagsm_def tseg_append next_blk_def algebra_simps)
  show "8 dvd fst (next_blk post)"
    using assms by (cases post) (auto simp: tagsm_def next_blk_def)
  show "post \<noteq> [] \<Longrightarrow> GET m (W (x + fst b + fst (next_blk post) - 8))
        = tagw (fst (next_blk post)) (snd (next_blk post))
       \<and> 16 \<le> fst (next_blk post) \<and> fst (next_blk post) \<le> total post"
    using assms tp by (cases post) (auto simp: tagsm_def tseg_append next_blk_def algebra_simps)
qed

lemma PUT_region_step:
  assumes "same_out R m m1" "0 \<le> c" "c + 4 \<le> 4294967296" "{c..<c + 4} \<subseteq> R"
  shows "same_out R m (PUT m1 (W c) v)"
proof -
  have "same_out (R \<union> {c..<c + 4}) m (PUT m1 (W c) v)"
    using assms(1) PUT_same_out [OF assms(2,3)] by (rule same_out_trans)
  then show ?thesis using assms(4) by (simp add: Un_absorb2)
qed

lemma tagsm_replace:
  assumes t: "tagsm m a0 (pre @ old @ post)" and x: "x = a0 + total pre"
    and fr: "same_out R m m'" and R: "R \<subseteq> {x - 4..<x + total old - 4}"
    and new: "tseg m' x new" "sizes_ok new" "total new = total old"
  shows "tagsm m' a0 (pre @ new @ post)"
proof -
  from t have b: "16 \<le> a0" "8 dvd a0" "a0 + total pre + total old + total post < 4294967296"
    "sizes_ok pre" "sizes_ok old" "sizes_ok post"
    and pro: "GET m (W (a0 - 12)) = tagw 8 True" "GET m (W (a0 - 8)) = tagw 8 True"
    and ts: "tseg m a0 pre" "tseg m (a0 + total pre + total old) post"
    and epi: "GET m (W (a0 + total pre + total old + total post - 4)) = tagw 0 True"
    by (auto simp: tagsm_def tseg_append algebra_simps)
  note n = total_nonneg [OF b(4)] total_nonneg [OF b(5)] total_nonneg [OF b(6)]
  have Rb: "\<And>n. n \<in> R \<Longrightarrow> a0 + total pre - 4 \<le> n \<and> n < a0 + total pre + total old - 4"
    using R x by auto
  have p1: "GET m' (W (a0 - 12)) = GET m (W (a0 - 12))"
  proof (rule GET_same_out [OF fr], goal_cases)
    case 3 show ?case using Rb n by fastforce
  qed (use b n in auto)
  have p2: "GET m' (W (a0 - 8)) = GET m (W (a0 - 8))"
  proof (rule GET_same_out [OF fr], goal_cases)
    case 3 show ?case using Rb n by fastforce
  qed (use b n in auto)
  have e: "GET m' (W (a0 + total pre + total old + total post - 4))
         = GET m (W (a0 + total pre + total old + total post - 4))"
  proof (rule GET_same_out [OF fr], goal_cases)
    case 3 show ?case using Rb n by fastforce
  qed (use b n in auto)
  have t1: "tseg m' a0 pre = tseg m a0 pre"
  proof (rule tseg_frame_coarse [OF fr], goal_cases)
    case 4 show ?case using Rb n by fastforce
  qed (use b n in auto)
  have t2: "tseg m' (a0 + total pre + total old) post = tseg m (a0 + total pre + total old) post"
  proof (rule tseg_frame_coarse [OF fr], goal_cases)
    case 4 show ?case using Rb n by fastforce
  qed (use b n in auto)
  show ?thesis
    using b pro ts epi p1 p2 e t1 t2 new x
    by (simp add: tagsm_def tseg_append algebra_simps)
qed

lemma tagsm_frame_links:
  assumes t: "tagsm m a0 bs" and fr: "same_out (links F) m m'" and F: "F \<subseteq> set (addrs a0 bs)"
  shows "tagsm m' a0 bs"
proof -
  from t have b: "16 \<le> a0" "8 dvd a0" "a0 + total bs < 4294967296" "sizes_ok bs"
    and pro: "GET m (W (a0 - 12)) = tagw 8 True" "GET m (W (a0 - 8)) = tagw 8 True"
    and ts: "tseg m a0 bs"
    and epi: "GET m (W (a0 + total bs - 4)) = tagw 0 True"
    by (auto simp: tagsm_def)
  note n = total_nonneg [OF b(4)]
  have far: "\<And>y. y \<in> F \<Longrightarrow> a0 \<le> y \<and> y + 16 \<le> a0 + total bs"
    using F addrs_bounds [OF b(4)] by blast
  have p1: "GET m' (W (a0 - 12)) = GET m (W (a0 - 12))"
  proof (rule GET_same_out [OF fr], goal_cases)
    case 3 show ?case using far by (fastforce simp: links_def)
  qed (use b n in auto)
  have p2: "GET m' (W (a0 - 8)) = GET m (W (a0 - 8))"
  proof (rule GET_same_out [OF fr], goal_cases)
    case 3 show ?case using far by (fastforce simp: links_def)
  qed (use b n in auto)
  have e: "GET m' (W (a0 + total bs - 4)) = GET m (W (a0 + total bs - 4))"
  proof (rule GET_same_out [OF fr], goal_cases)
    case 3 show ?case using far by (fastforce simp: links_def)
  qed (use b n in auto)
  have t1: "tseg m' a0 bs = tseg m a0 bs"
    using b n F by (intro tseg_frame_links [OF fr]) auto
  show ?thesis using b pro ts epi p1 p2 e t1 by (simp add: tagsm_def)
qed

lemma tags_ok_frame_links:
  assumes "tags_ok s a0 bs" "frame (links F) s s'" "F \<subseteq> set (addrs a0 bs)"
  shows "tags_ok s' a0 bs"
  using assms tagsm_frame_links [of "mem s" a0 bs F "mem s'"]
  by (auto simp: tags_ok_def frame_def)

lemma tags_ok_sep:
  assumes "tags_ok s a0 bs" "F \<subseteq> set (addrs a0 bs)"
  shows "sep F"
proof -
  have "sep (set (addrs a0 bs))"
    using assms(1) by (intro addrs_sep) (auto simp: tags_ok_def tagsm_def)
  then show ?thesis using assms(2) by (rule sep_subset)
qed

lemma tags_ok_not_prologue:
  assumes "tags_ok s a0 bs" "y \<in> set (addrs a0 bs)"
  shows "W y \<noteq> p_heap_list s"
proof -
  have b: "16 \<le> a0" "a0 + total bs < 4294967296" "sizes_ok bs" "p_heap_list s = W (a0 - 8)"
    using assms(1) by (auto simp: tags_ok_def tagsm_def)
  have "a0 \<le> y \<and> y + 16 \<le> a0 + total bs" using addrs_bounds [OF b(3) assms(2)] .
  then show ?thesis using b by (simp add: W_eq)
qed

lemma remove_step:
  assumes t: "tags_ok s a0 bs" and fl: "flist_ok s fl" and sub: "set fl \<subseteq> set (addrs a0 bs)"
    and x: "x \<in> set fl"
  shows "tags_ok (allocate_block s (W x)) a0 bs"
    "flist_ok (allocate_block s (W x)) (remove1 x fl)"
    "frame (links (set fl)) s (allocate_block s (W x))"
proof -
  have sp: "sep (set fl)" using t sub by (rule tags_ok_sep)
  note a = allocate_block_ok [OF fl x sp]
  show "flist_ok (allocate_block s (W x)) (remove1 x fl)" using a by simp
  show f: "frame (links (set fl)) s (allocate_block s (W x))" using a by simp
  show "tags_ok (allocate_block s (W x)) a0 bs"
    by (rule tags_ok_frame_links [OF t f sub])
qed

lemma insert_step:
  assumes t: "tags_ok s a0 bs" and fl: "flist_ok s fl"
    and sub: "insert x (set fl) \<subseteq> set (addrs a0 bs)" and x: "x \<notin> set fl"
  shows "tags_ok (free_block s (W x)) a0 bs"
    "flist_ok (free_block s (W x)) (x # fl)"
    "frame (links (insert x (set fl))) s (free_block s (W x))"
proof -
  have sp: "sep (insert x (set fl))" using t sub by (rule tags_ok_sep)
  have ph: "\<forall>y\<in>set fl. W y \<noteq> p_heap_list s"
    using tags_ok_not_prologue [OF t] sub by auto
  note a = free_block_ok [OF fl x sp ph]
  show "flist_ok (free_block s (W x)) (x # fl)" using a by simp
  show f: "frame (links (insert x (set fl))) s (free_block s (W x))" using a by simp
  show "tags_ok (free_block s (W x)) a0 bs"
    by (rule tags_ok_frame_links [OF t f sub])
qed

lemma retag_step:
  assumes t: "tags_ok s a0 (pre @ old @ post)" and fl: "flist_ok s fl"
    and x: "x = a0 + total pre"
    and sub: "set fl \<subseteq> set (addrs a0 pre) \<union> set (addrs (x + total old) post)"
    and fr: "same_out R (mem s) m'" and R: "R \<subseteq> {x - 4..<x + total old - 4}"
    and new: "tseg m' x new" "sizes_ok new" "total new = total old"
  shows "tags_ok (s\<lparr>mem := m'\<rparr>) a0 (pre @ new @ post)"
    "flist_ok (s\<lparr>mem := m'\<rparr>) fl"
proof -
  from t have tm: "tagsm (mem s) a0 (pre @ old @ post)" by (simp add: tags_ok_def)
  have "tagsm m' a0 (pre @ new @ post)"
    using tm x fr R new by (rule tagsm_replace)
  then show "tags_ok (s\<lparr>mem := m'\<rparr>) a0 (pre @ new @ post)"
    using t new by (simp add: tags_ok_def)
  from tm have b: "16 \<le> a0" "a0 + total pre + total old + total post < 4294967296"
    "sizes_ok pre" "sizes_ok old" "sizes_ok post"
    by (auto simp: tagsm_def algebra_simps)
  note n = total_nonneg [OF b(3)] total_nonneg [OF b(4)] total_nonneg [OF b(5)]
  have "dseg m' 0 (mp_firstfreeblock s) fl 0 = dseg (mem s) 0 (mp_firstfreeblock s) fl 0"
  proof (rule dseg_frame [OF fr], intro ballI)
    fix y assume "y \<in> set fl"
    then have "y \<in> set (addrs a0 pre) \<or> y \<in> set (addrs (x + total old) post)"
      using sub by auto
    then have "(a0 \<le> y \<and> y + 16 \<le> x) \<or> (x + total old \<le> y \<and> y + 16 \<le> x + total old + total post)"
      using addrs_bounds [OF b(3), of y a0] addrs_bounds [OF b(5), of y "x + total old"] x
      by auto
    moreover have "\<And>n. n \<in> R \<Longrightarrow> x - 4 \<le> n \<and> n < x + total old - 4"
      using R by auto
    ultimately show "0 \<le> y \<and> y + 8 \<le> 4294967296 \<and> (\<forall>n. y \<le> n \<and> n < y + 8 \<longrightarrow> n \<notin> R)"
      using b n x by fastforce
  qed
  then show "flist_ok (s\<lparr>mem := m'\<rparr>) fl" using fl by (simp add: flist_ok_def)
qed

lemma GET_PUT_W_if:
  assumes "0 \<le> a" "a + 4 \<le> 4294967296" "0 \<le> b" "b + 4 \<le> 4294967296"
    and "a = b \<or> a + 4 \<le> b \<or> b + 4 \<le> a"
  shows "GET (PUT m (W a) v) (W b) = (if a = b then v else GET m (W b))"
  using assms GET_PUT_W [of a b m v] by (auto simp: GET_PUT_same)

lemma W_ge16: "0 \<le> d \<Longrightarrow> d < 4294967296 \<Longrightarrow> (DSIZE + OVERHEAD \<le> W d) = (16 \<le> d)"
  using W_le [of 16 d] by (simp add: DSIZE_def OVERHEAD_def)

lemma free_addrs_mid:
  "free_addrs a0 (pre @ b # post)
     = free_addrs a0 pre @ (if snd b then [] else [a0 + total pre]) @ free_addrs (a0 + total pre + fst b) post"
  by (simp add: free_addrs_append)

lemma addrs_mid:
  "addrs a0 (pre @ b # post) = addrs a0 pre @ (a0 + total pre) # addrs (a0 + total pre + fst b) post"
  by (simp add: addrs_append)

text \<open>Where the blocks before and after a given block lie.\<close>

lemma geometry:
  assumes "sizes_ok pre" "sizes_ok post" "x = a0 + total pre"
  shows "y \<in> set (addrs a0 pre) \<Longrightarrow> a0 \<le> y \<and> y + 16 \<le> x"
    "y \<in> set (addrs (x + d) post) \<Longrightarrow> x + d \<le> y \<and> y + 16 \<le> x + d + total post"
    "y \<in> set (free_addrs a0 pre) \<Longrightarrow> a0 \<le> y \<and> y + 16 \<le> x"
    "y \<in> set (free_addrs (x + d) post) \<Longrightarrow> x + d \<le> y \<and> y + 16 \<le> x + d + total post"
  using assms addrs_bounds [of pre y a0] addrs_bounds [of post y "x + d"]
    free_addrs_subset [of a0 pre] free_addrs_subset [of "x + d" post]
  by auto

lemma place_whole:
  assumes inv: "heap_inv s a0 (pre @ (csz, False) # post) fl" and x: "x = a0 + total pre"
    and asz: "16 \<le> asz" "8 dvd asz" "asz \<le> csz" and small: "csz - asz < 16"
  shows "heap_inv (place s (W x) (W asz)) a0 (pre @ (csz, True) # post) (remove1 x fl)"
    and "frame (links (set fl) \<union> {x - 4..<x + csz - 4}) s (place s (W x) (W asz))"
proof -
  let ?bs = "pre @ (csz, False) # post"
  from inv have t: "tags_ok s a0 ?bs" and fl: "flist_ok s fl"
    and sf: "set fl = set (free_addrs a0 ?bs)" and na: "no_adj ?bs"
    by (auto simp: heap_inv_def)
  from t have tm: "tagsm (mem s) a0 ?bs" by (simp add: tags_ok_def)
  note b = tagsm_bounds [OF tm, simplified]
  note g = geometry [OF b(8,9) x]
  have xin: "x \<in> set fl" using sf x by (simp add: free_addrs_mid)
  have sub: "set fl \<subseteq> set (addrs a0 ?bs)" using sf free_addrs_subset by blast
  have di: "distinct fl" using fl by (simp add: flist_ok_def)
  let ?s1 = "allocate_block s (W x)"
  let ?fl1 = "remove1 x fl"
  note r = remove_step [OF t fl sub xin]
  have nx: "x \<notin> set (free_addrs a0 pre)" "x \<notin> set (free_addrs (x + csz) post)"
    using g(3) [of x] g(4) [of x csz] b by auto
  have sf1: "set ?fl1 = set (free_addrs a0 pre) \<union> set (free_addrs (x + csz) post)"
    using di sf nx x by (auto simp: free_addrs_mid)
  have sub1: "set ?fl1 \<subseteq> set (addrs a0 pre) \<union> set (addrs (x + total [(csz, False)]) post)"
    using sf1 free_addrs_subset [of a0 pre] free_addrs_subset [of "x + csz" post] by auto
  have tm1: "tagsm (mem ?s1) a0 ?bs" using r(1) by (simp add: tags_ok_def)
  note h = tagsm_here [OF tm x, simplified]
  note h1 = tagsm_here [OF tm1 x, simplified]
  have cs: "GET_SIZE (mem s) (W (x - 4)) = W csz"
    using h(1) b by (intro GET_SIZE_tag) auto
  have cond: "\<not> DSIZE + OVERHEAD \<le> W (csz - asz)"
    using small asz b by (subst W_ge16) auto
  let ?m1 = "mem ?s1"
  let ?m2 = "PUT ?m1 (W (x - 4)) (tagw csz True)"
  let ?m3 = "PUT ?m2 (W (x + csz - 8)) (tagw csz True)"
  have e1: "FTRP ?m2 (W x) = W (x + csz - 8)"
    using b by (intro FTRP_W [where al = True]) (auto simp: GET_PUT_same)
  have pl: "place s (W x) (W asz) = ?s1\<lparr>mem := ?m3\<rparr>"
    using cs cond e1 by (simp add: place_def Let_def PUTs_def PACK_tag)
  let ?R = "{x - 4..<x + csz - 4}"
  have fr: "same_out ?R ?m1 ?m3"
  proof -
    have "same_out ?R ?m1 ?m2" using b x by (intro PUT_region_step) auto
    then show ?thesis using b x by (intro PUT_region_step) auto
  qed
  have ts: "tseg ?m3 x [(csz, True)]"
    using b x by (simp add: GET_PUT_W_if)
  have t1: "tags_ok ?s1 a0 (pre @ [(csz, False)] @ post)" using r(1) by simp
  note rt = retag_step [OF t1 r(2) x sub1 fr _ ts]
  have t3: "tags_ok (?s1\<lparr>mem := ?m3\<rparr>) a0 (pre @ (csz, True) # post)"
    and f3: "flist_ok (?s1\<lparr>mem := ?m3\<rparr>) ?fl1"
    using rt b by auto
  have na': "no_adj (pre @ (csz, True) # post)"
    using na by (auto simp: no_adj_append no_adj_Cons)
  have sf': "set ?fl1 = set (free_addrs a0 (pre @ (csz, True) # post))"
    using sf1 x by (simp add: free_addrs_mid)
  show "heap_inv (place s (W x) (W asz)) a0 (pre @ (csz, True) # post) (remove1 x fl)"
    using t3 f3 na' sf' by (simp add: pl heap_inv_def)
  have "frame ?R ?s1 (?s1\<lparr>mem := ?m3\<rparr>)" using fr by (simp add: frame_def)
  then show "frame (links (set fl) \<union> ?R) s (place s (W x) (W asz))"
    unfolding pl using r(3) by (intro frame_trans)
qed

lemma place_split:
  assumes inv: "heap_inv s a0 (pre @ (csz, False) # post) fl" and x: "x = a0 + total pre"
    and asz: "16 \<le> asz" "8 dvd asz" and big: "16 \<le> csz - asz"
  shows "heap_inv (place s (W x) (W asz)) a0 (pre @ (asz, True) # (csz - asz, False) # post)
           ((x + asz) # remove1 x fl)"
    and "frame (links (set fl) \<union> {x - 4..<x + csz - 4}) s (place s (W x) (W asz))"
proof -
  let ?bs = "pre @ (csz, False) # post"
  let ?new = "[(asz, True), (csz - asz, False)]"
  from inv have t: "tags_ok s a0 ?bs" and fl: "flist_ok s fl"
    and sf: "set fl = set (free_addrs a0 ?bs)" and na: "no_adj ?bs"
    by (auto simp: heap_inv_def)
  from t have tm: "tagsm (mem s) a0 ?bs" by (simp add: tags_ok_def)
  note b = tagsm_bounds [OF tm, simplified]
  note g = geometry [OF b(8,9) x]
  have rsz: "8 dvd csz - asz" using b asz by simp
  have xin: "x \<in> set fl" using sf x by (simp add: free_addrs_mid)
  have sub: "set fl \<subseteq> set (addrs a0 ?bs)" using sf free_addrs_subset by blast
  have di: "distinct fl" using fl by (simp add: flist_ok_def)
  let ?s1 = "allocate_block s (W x)"
  let ?fl1 = "remove1 x fl"
  note r = remove_step [OF t fl sub xin]
  have nx: "x \<notin> set (free_addrs a0 pre)" "x \<notin> set (free_addrs (x + csz) post)"
    using g(3) [of x] g(4) [of x csz] b by auto
  have sf1: "set ?fl1 = set (free_addrs a0 pre) \<union> set (free_addrs (x + csz) post)"
    using di sf nx x by (auto simp: free_addrs_mid)
  have sub1: "set ?fl1 \<subseteq> set (addrs a0 pre) \<union> set (addrs (x + total [(csz, False)]) post)"
    using sf1 free_addrs_subset [of a0 pre] free_addrs_subset [of "x + csz" post] by auto
  note h = tagsm_here [OF tm x, simplified]
  have cs: "GET_SIZE (mem s) (W (x - 4)) = W csz"
    using h(1) b by (intro GET_SIZE_tag) auto
  have cond: "DSIZE + OVERHEAD \<le> W (csz - asz)"
    using big asz b by (subst W_ge16) auto
  let ?m1 = "mem ?s1"
  let ?m2 = "PUT ?m1 (W (x - 4)) (tagw asz True)"
  let ?m3 = "PUT ?m2 (W (x + asz - 8)) (tagw asz True)"
  let ?m4 = "PUT ?m3 (W (x + asz - 4)) (tagw (csz - asz) False)"
  let ?m5 = "PUT ?m4 (W (x + csz - 8)) (tagw (csz - asz) False)"
  have e1: "FTRP ?m2 (W x) = W (x + asz - 8)"
    using asz by (intro FTRP_W [where al = True]) (auto simp: GET_PUT_same)
  have e2: "NEXT_BLKP ?m3 (W x) = W (x + asz)"
    using asz b x big by (intro NEXT_BLKP_W [where al = True]) (auto simp: GET_PUT_W_if)
  have e3: "FTRP ?m4 (W (x + asz)) = W (x + csz - 8)"
    using FTRP_W [of ?m4 "x + asz" "csz - asz" False] rsz by (simp add: GET_PUT_same)
  have pl: "place s (W x) (W asz) = free_block (?s1\<lparr>mem := ?m5\<rparr>) (W (x + asz))"
    using cs cond e1 e2 e3 by (simp add: place_def Let_def PUTs_def PACK_tag)
  let ?R = "{x - 4..<x + csz - 4}"
  have fr: "same_out ?R ?m1 ?m5"
  proof -
    have "same_out ?R ?m1 ?m2" using b x asz big by (intro PUT_region_step) auto
    then have "same_out ?R ?m1 ?m3" using b x asz big by (intro PUT_region_step) auto
    then have "same_out ?R ?m1 ?m4" using b x asz big by (intro PUT_region_step) auto
    then show ?thesis using b x asz big by (intro PUT_region_step) auto
  qed
  have ts: "tseg ?m5 x ?new"
    using b x asz big by (simp add: GET_PUT_W_if)
  have t1: "tags_ok ?s1 a0 (pre @ [(csz, False)] @ post)" using r(1) by simp
  note rt = retag_step [OF t1 r(2) x sub1 fr _ ts]
  let ?s5 = "?s1\<lparr>mem := ?m5\<rparr>"
  let ?bs' = "pre @ (asz, True) # (csz - asz, False) # post"
  have t5: "tags_ok ?s5 a0 ?bs'" and f5: "flist_ok ?s5 ?fl1"
    using rt asz big rsz by auto
  have rn: "x + asz \<notin> set ?fl1"
    using sf1 g(3) [of "x + asz"] g(4) [of "x + asz" csz] asz big by auto
  have sub5: "insert (x + asz) (set ?fl1) \<subseteq> set (addrs a0 ?bs')"
    using sf1 free_addrs_subset [of a0 pre] free_addrs_subset [of "x + csz" post] x
    by (auto simp: addrs_append add.assoc)
  note ins = insert_step [OF t5 f5 sub5 rn]
  have na': "no_adj ?bs'"
    using na by (auto simp: no_adj_append no_adj_Cons)
  have sf': "set ((x + asz) # ?fl1) = set (free_addrs a0 ?bs')"
    using sf1 x by (simp add: free_addrs_append add.assoc)
  show "heap_inv (place s (W x) (W asz)) a0 ?bs' ((x + asz) # remove1 x fl)"
    unfolding pl heap_inv_def using ins na' sf' by blast
  have f15: "frame ?R ?s1 ?s5" using fr by (simp add: frame_def)
  have lk: "links (insert (x + asz) (set ?fl1)) \<subseteq> links (set fl) \<union> ?R"
    using asz big set_remove1_subset [of x fl] by (fastforce simp: links_def)
  have "frame ((links (set fl) \<union> ?R) \<union> links (insert (x + asz) (set ?fl1))) s
          (free_block ?s5 (W (x + asz)))"
    by (intro frame_trans [OF frame_trans [OF r(3) f15] ins(3)])
  then show "frame (links (set fl) \<union> ?R) s (place s (W x) (W asz))"
    unfolding pl using lk by (simp add: Un_absorb2)
qed

lemma reads:
  assumes t: "tagsm m a0 (pre @ b # post)" and x: "x = a0 + total pre"
  shows "PREV_BLKP m (W x) = W (x - fst (prev_blk pre))"
    "FTRP m (W (x - fst (prev_blk pre))) = W (x - 8)"
    "GET_ALLOC m (W (x - 8)) = (if snd (prev_blk pre) then 1 else 0)"
    "GET_SIZE m (W (x - fst (prev_blk pre) - 4)) = W (fst (prev_blk pre))"
    "GET_SIZE m (W (x - 4)) = W (fst b)"
    "NEXT_BLKP m (W x) = W (x + fst b)"
    "FTRP m (W x) = W (x + fst b - 8)"
    "GET_ALLOC m (W (x + fst b - 4)) = (if snd (next_blk post) then 1 else 0)"
    "GET_SIZE m (W (x + fst b - 4)) = W (fst (next_blk post))"
    "post \<noteq> [] \<Longrightarrow> FTRP m (W (x + fst b)) = W (x + fst b + fst (next_blk post) - 8)"
    "post \<noteq> [] \<Longrightarrow> GET_SIZE m (W (x + fst b + fst (next_blk post) - 8)) = W (fst (next_blk post))"
proof -
  note b = tagsm_bounds [OF t]
  note h = tagsm_here [OF t x]
  note p = tagsm_prev [OF t x]
  note n = tagsm_next [OF t x]
  show "PREV_BLKP m (W x) = W (x - fst (prev_blk pre))"
    using p(1,3) by (rule PREV_BLKP_W)
  show "FTRP m (W (x - fst (prev_blk pre))) = W (x - 8)"
    using FTRP_W [OF p(2,3)] by simp
  show "GET_ALLOC m (W (x - 8)) = (if snd (prev_blk pre) then 1 else 0)"
    using p(1,3) by (rule GET_ALLOC_tag)
  show "GET_SIZE m (W (x - fst (prev_blk pre) - 4)) = W (fst (prev_blk pre))"
    using p(2,3) by (rule GET_SIZE_tag)
  show "GET_SIZE m (W (x - 4)) = W (fst b)"
    using h(1) b(5) by (rule GET_SIZE_tag)
  show "NEXT_BLKP m (W x) = W (x + fst b)"
    using h(1) b(5) by (rule NEXT_BLKP_W)
  show "FTRP m (W x) = W (x + fst b - 8)"
    using h(1) b(5) by (rule FTRP_W)
  show "GET_ALLOC m (W (x + fst b - 4)) = (if snd (next_blk post) then 1 else 0)"
    using n(1,2) by (rule GET_ALLOC_tag)
  show "GET_SIZE m (W (x + fst b - 4)) = W (fst (next_blk post))"
    using n(1,2) by (rule GET_SIZE_tag)
  show "post \<noteq> [] \<Longrightarrow> FTRP m (W (x + fst b)) = W (x + fst b + fst (next_blk post) - 8)"
    using FTRP_W [of m "x + fst b", OF _ n(2)] n(1) by simp
  show "post \<noteq> [] \<Longrightarrow> GET_SIZE m (W (x + fst b + fst (next_blk post) - 8)) = W (fst (next_blk post))"
    using n(3) n(2) by (intro GET_SIZE_tag) auto
qed

lemma coalesce_case1:
  assumes c: "coal_pre s a0 pre sz post fl" and x: "x = a0 + total pre"
    and pa: "snd (prev_blk pre)" and na: "snd (next_blk post)"
  shows "coalesce_tr s (W x) = ([Inserted (W x)], W x, free_block s (W x))"
    and "heap_inv (free_block s (W x)) a0 (pre @ (sz, False) # post) (x # fl)"
    and "frame (links (insert x (set fl))) s (free_block s (W x))"
proof -
  let ?bs = "pre @ (sz, False) # post"
  from c have t: "tags_ok s a0 ?bs" and fl: "flist_ok s fl"
    and sf: "set fl = set (free_addrs a0 (pre @ (sz, True) # post))"
    and nad: "no_adj (pre @ (sz, True) # post)"
    by (auto simp: coal_pre_def)
  from t have tm: "tagsm (mem s) a0 ?bs" by (simp add: tags_ok_def)
  note b = tagsm_bounds [OF tm, simplified]
  note g = geometry [OF b(8,9) x]
  note rd = reads [OF tm x, simplified]
  show "coalesce_tr s (W x) = ([Inserted (W x)], W x, free_block s (W x))"
    using rd pa na by (simp add: coalesce_tr_def Let_def)
  have sf1: "set fl = set (free_addrs a0 pre) \<union> set (free_addrs (x + sz) post)"
    using sf x by (simp add: free_addrs_mid)
  have nx: "x \<notin> set fl"
    using sf1 g(3) [of x] g(4) [of x sz] b by auto
  have sub: "insert x (set fl) \<subseteq> set (addrs a0 ?bs)"
    using sf1 free_addrs_subset [of a0 pre] free_addrs_subset [of "x + sz" post] x
    by (auto simp: addrs_append add.assoc)
  note ins = insert_step [OF t fl sub nx]
  have na': "no_adj ?bs"
    using nad pa na
    by (cases pre rule: rev_cases; cases post)
       (auto simp: no_adj_append no_adj_Cons prev_blk_def next_blk_def)
  have sf': "set (x # fl) = set (free_addrs a0 ?bs)"
    using sf1 x by (simp add: free_addrs_mid)
  show "heap_inv (free_block s (W x)) a0 ?bs (x # fl)"
    unfolding heap_inv_def using ins na' sf' by blast
  show "frame (links (insert x (set fl))) s (free_block s (W x))" by (rule ins(3))
qed

lemma coalesce_case2:
  assumes c: "coal_pre s a0 pre sz ((nsz, False) # post) fl" and x: "x = a0 + total pre"
    and pa: "snd (prev_blk pre)"
  defines "s1 \<equiv> allocate_block s (W (x + sz))"
  defines "m3 \<equiv> PUT (PUT (mem s1) (W (x - 4)) (tagw (sz + nsz) False))
                    (W (x + sz + nsz - 8)) (tagw (sz + nsz) False)"
  defines "s' \<equiv> free_block (s1\<lparr>mem := m3\<rparr>) (W x)"
  shows "coalesce_tr s (W x)
           = ([Removed (W (x + sz)), Wrote (W (x - 4)), Wrote (W (x + sz + nsz - 8)), Inserted (W x)],
              W x, s')"
    and "heap_inv s' a0 (pre @ (sz + nsz, False) # post) (x # remove1 (x + sz) fl)"
    and "frame (links (set fl) \<union> {x - 4..<x + sz + nsz - 4}) s s'"
proof -
  let ?post = "(nsz, False) # post"
  let ?bs = "pre @ (sz, False) # ?post"
  let ?old = "[(sz, False), (nsz, False)]"
  let ?new = "[(sz + nsz, False)]"
  let ?bs' = "pre @ (sz + nsz, False) # post"
  let ?n = "x + sz"
  from c have t: "tags_ok s a0 ?bs" and fl: "flist_ok s fl"
    and sf: "set fl = set (free_addrs a0 (pre @ (sz, True) # ?post))"
    and nad: "no_adj (pre @ (sz, True) # ?post)"
    by (auto simp: coal_pre_def)
  from t have tm: "tagsm (mem s) a0 ?bs" by (simp add: tags_ok_def)
  note b = tagsm_bounds [OF tm, simplified]
  have bn: "16 \<le> nsz" "8 dvd nsz" "sizes_ok post" "0 \<le> total post"
    using b(9) total_nonneg [of post] by auto
  note g = geometry [OF b(8) bn(3) x]
  note rd = reads [OF tm x, simplified next_blk_def, simplified]
  have di: "distinct fl" using fl by (simp add: flist_ok_def)
  have sf0: "set fl = set (free_addrs a0 pre) \<union> {?n} \<union> set (free_addrs (x + sz + nsz) post)"
    using sf x by (auto simp: free_addrs_mid add.assoc)
  have nin: "?n \<in> set fl" using sf0 by simp
  have sub: "set fl \<subseteq> set (addrs a0 ?bs)"
    using sf0 free_addrs_subset [of a0 pre] free_addrs_subset [of "x + sz + nsz" post] x
    by (auto simp: addrs_append add.assoc)
  note r = remove_step [OF t fl sub nin, folded s1_def]
  let ?fl1 = "remove1 ?n fl"
  have nn: "?n \<notin> set (free_addrs a0 pre)" "?n \<notin> set (free_addrs (x + sz + nsz) post)"
    using g(3) [of ?n] g(4) [of ?n "sz + nsz"] b bn by (auto simp: add.assoc)
  have sf1: "set ?fl1 = set (free_addrs a0 pre) \<union> set (free_addrs (x + sz + nsz) post)"
    using di sf0 nn by auto
  have sub1: "set ?fl1 \<subseteq> set (addrs a0 pre) \<union> set (addrs (x + total ?old) post)"
    using sf1 free_addrs_subset [of a0 pre] free_addrs_subset [of "x + sz + nsz" post]
    by (auto simp: add.assoc)
  have tm1: "tagsm (mem s1) a0 ?bs" using r(1) by (simp add: tags_ok_def)
  note rd1 = reads [OF tm1 x, simplified next_blk_def, simplified]
  let ?m1 = "mem s1"
  let ?m2 = "PUT ?m1 (W (x - 4)) (tagw (sz + nsz) False)"
  have e1: "FTRP ?m2 (W x) = W (x + sz + nsz - 8)"
    using FTRP_W [of ?m2 x "sz + nsz" False] b bn by (simp add: GET_PUT_same add.assoc)
  have tr: "coalesce_tr s (W x)
           = ([Removed (W ?n), Wrote (W (x - 4)), Wrote (W (x + sz + nsz - 8)), Inserted (W x)],
              W x, s')"
    using rd rd1 pa e1
    by (simp add: coalesce_tr_def Let_def PUTs_def PACK_tag s'_def m3_def s1_def [symmetric])
  show "coalesce_tr s (W x)
           = ([Removed (W ?n), Wrote (W (x - 4)), Wrote (W (x + sz + nsz - 8)), Inserted (W x)],
              W x, s')" by (rule tr)
  let ?R = "{x - 4..<x + total ?old - 4}"
  have fr: "same_out ?R ?m1 m3"
  proof -
    have "same_out ?R ?m1 ?m2" using b bn x by (intro PUT_region_step) auto
    then show ?thesis unfolding m3_def using b bn x by (intro PUT_region_step) auto
  qed
  have ts: "tseg m3 x ?new"
    unfolding m3_def using b bn x by (simp add: GET_PUT_W_if)
  have t1: "tags_ok s1 a0 (pre @ ?old @ post)" using r(1) by simp
  note rt = retag_step [OF t1 r(2) x sub1 fr _ ts]
  let ?s3 = "s1\<lparr>mem := m3\<rparr>"
  have t3: "tags_ok ?s3 a0 ?bs'" and f3: "flist_ok ?s3 ?fl1"
    using rt b bn by auto
  have xn: "x \<notin> set ?fl1"
    using sf1 g(3) [of x] g(4) [of x "sz + nsz"] b bn by (auto simp: add.assoc)
  have sub3: "insert x (set ?fl1) \<subseteq> set (addrs a0 ?bs')"
    using sf1 free_addrs_subset [of a0 pre] free_addrs_subset [of "x + sz + nsz" post] x
    by (auto simp: addrs_append add.assoc)
  note ins = insert_step [OF t3 f3 sub3 xn, folded s'_def]
  have na': "no_adj ?bs'"
    using nad pa
    by (cases pre rule: rev_cases)
       (auto simp: no_adj_append no_adj_Cons prev_blk_def)
  have sf': "set (x # ?fl1) = set (free_addrs a0 ?bs')"
    using sf1 x by (simp add: free_addrs_mid add.assoc)
  show "heap_inv s' a0 ?bs' (x # ?fl1)"
    unfolding heap_inv_def using ins na' sf' by blast
  have f13: "frame ?R s1 ?s3" using fr by (simp add: frame_def)
  have lk: "links (insert x (set ?fl1)) \<subseteq> links (set fl) \<union> ?R"
    using b bn set_remove1_subset [of ?n fl] by (fastforce simp: links_def)
  have "frame ((links (set fl) \<union> ?R) \<union> links (insert x (set ?fl1))) s s'"
    by (intro frame_trans [OF frame_trans [OF r(3) f13] ins(3)])
  then have "frame (links (set fl) \<union> ?R) s s'"
    using lk by (simp add: Un_absorb2)
  then show "frame (links (set fl) \<union> {x - 4..<x + sz + nsz - 4}) s s'"
    by (simp add: add.assoc)
qed

lemma coalesce_case3:
  assumes c: "coal_pre s a0 (pre @ [(psz, False)]) sz post fl" and x: "x = a0 + total pre + psz"
    and na: "snd (next_blk post)"
  defines "s1 \<equiv> allocate_block s (W (x - psz))"
  defines "m3 \<equiv> PUT (PUT (mem s1) (W (x + sz - 8)) (tagw (sz + psz) False))
                    (W (x - psz - 4)) (tagw (sz + psz) False)"
  defines "s' \<equiv> free_block (s1\<lparr>mem := m3\<rparr>) (W (x - psz))"
  shows "coalesce_tr s (W x)
           = ([Removed (W (x - psz)), Wrote (W (x + sz - 8)), Wrote (W (x - psz - 4)),
               Inserted (W (x - psz))], W (x - psz), s')"
    and "heap_inv s' a0 (pre @ (psz + sz, False) # post) ((x - psz) # remove1 (x - psz) fl)"
    and "frame (links (set fl) \<union> {x - psz - 4..<x + sz - 4}) s s'"
proof -
  let ?pre = "pre @ [(psz, False)]"
  let ?bs = "?pre @ (sz, False) # post"
  let ?old = "[(psz, False), (sz, False)]"
  let ?new = "[(psz + sz, False)]"
  let ?bs' = "pre @ (psz + sz, False) # post"
  let ?p = "x - psz"
  have x': "x = a0 + total ?pre" using x by simp
  have p': "?p = a0 + total pre" using x by simp
  from c have t: "tags_ok s a0 ?bs" and fl: "flist_ok s fl"
    and sf: "set fl = set (free_addrs a0 (?pre @ (sz, True) # post))"
    and nad: "no_adj (?pre @ (sz, True) # post)"
    by (auto simp: coal_pre_def)
  from t have tm: "tagsm (mem s) a0 ?bs" by (simp add: tags_ok_def)
  note b = tagsm_bounds [OF tm, simplified]
  have bp: "16 \<le> psz" "8 dvd psz" "sizes_ok pre" "0 \<le> total pre"
    using b(8) total_nonneg [of pre] by auto
  note g = geometry [OF bp(3) b(9) p']
  note rd = reads [OF tm x', simplified prev_blk_def, simplified]
  have di: "distinct fl" using fl by (simp add: flist_ok_def)
  have sf0: "set fl = set (free_addrs a0 pre) \<union> {?p} \<union> set (free_addrs (x + sz) post)"
    using sf x by (auto simp: free_addrs_append add.assoc)
  have pin: "?p \<in> set fl" using sf0 by simp
  have sub: "set fl \<subseteq> set (addrs a0 ?bs)"
    using sf0 free_addrs_subset [of a0 pre] free_addrs_subset [of "x + sz" post] x
    by (auto simp: addrs_append add.assoc)
  note r = remove_step [OF t fl sub pin, folded s1_def]
  let ?fl1 = "remove1 ?p fl"
  have nn: "?p \<notin> set (free_addrs a0 pre)" "?p \<notin> set (free_addrs (x + sz) post)"
    using g(3) [of ?p] g(4) [of ?p "psz + sz"] b bp x by (auto simp: add.assoc)
  have sf1: "set ?fl1 = set (free_addrs a0 pre) \<union> set (free_addrs (x + sz) post)"
    using di sf0 nn by auto
  have sub1: "set ?fl1 \<subseteq> set (addrs a0 pre) \<union> set (addrs (?p + total ?old) post)"
    using sf1 free_addrs_subset [of a0 pre] free_addrs_subset [of "x + sz" post]
    by (auto simp: add.assoc)
  have tm1: "tagsm (mem s1) a0 ?bs" using r(1) by (simp add: tags_ok_def)
  note rd1 = reads [OF tm1 x', simplified prev_blk_def, simplified]
  note pv1 = tagsm_prev [OF tm1 x', simplified prev_blk_def, simplified]
  let ?m1 = "mem s1"
  let ?m2 = "PUT ?m1 (W (x + sz - 8)) (tagw (sz + psz) False)"
  have e1: "PREV_BLKP ?m2 (W x) = W (x - psz)"
    using pv1(1) b bp x by (intro PREV_BLKP_W [where al = False]) (auto simp: GET_PUT_W_if)
  have e2: "PREV_BLKP m3 (W x) = W (x - psz)"
    unfolding m3_def
    using pv1(1) b bp x by (intro PREV_BLKP_W [where al = False]) (auto simp: GET_PUT_W_if)
  have tr: "coalesce_tr s (W x)
           = ([Removed (W ?p), Wrote (W (x + sz - 8)), Wrote (W (x - psz - 4)),
               Inserted (W ?p)], W ?p, s')"
    using rd rd1 na e1 e2 [unfolded m3_def]
    by (simp add: coalesce_tr_def Let_def PUTs_def PACK_tag s'_def m3_def s1_def [symmetric])
  show "coalesce_tr s (W x)
           = ([Removed (W ?p), Wrote (W (x + sz - 8)), Wrote (W (x - psz - 4)),
               Inserted (W ?p)], W ?p, s')" by (rule tr)
  let ?R = "{?p - 4..<?p + total ?old - 4}"
  have fr: "same_out ?R ?m1 m3"
  proof -
    have "same_out ?R ?m1 ?m2" using b bp x by (intro PUT_region_step) auto
    then show ?thesis unfolding m3_def using b bp x by (intro PUT_region_step) auto
  qed
  have ts: "tseg m3 ?p ?new"
    unfolding m3_def using b bp x by (simp add: GET_PUT_W_if add.commute)
  have t1: "tags_ok s1 a0 (pre @ ?old @ post)" using r(1) by simp
  note rt = retag_step [OF t1 r(2) p' sub1 fr _ ts]
  let ?s3 = "s1\<lparr>mem := m3\<rparr>"
  have t3: "tags_ok ?s3 a0 ?bs'" and f3: "flist_ok ?s3 ?fl1"
    using rt b bp by auto
  have xn: "?p \<notin> set ?fl1"
    using sf1 nn by auto
  have sub3: "insert ?p (set ?fl1) \<subseteq> set (addrs a0 ?bs')"
    using sf1 free_addrs_subset [of a0 pre] free_addrs_subset [of "x + sz" post] x
    by (auto simp: addrs_append add.assoc)
  note ins = insert_step [OF t3 f3 sub3 xn, folded s'_def]
  have na': "no_adj ?bs'"
    using nad na
    by (cases post) (auto simp: no_adj_append no_adj_Cons next_blk_def)
  have sf': "set (?p # ?fl1) = set (free_addrs a0 ?bs')"
    using sf1 x by (simp add: free_addrs_mid add.assoc)
  show "heap_inv s' a0 ?bs' (?p # ?fl1)"
    unfolding heap_inv_def using ins na' sf' by blast
  have f13: "frame ?R s1 ?s3" using fr by (simp add: frame_def)
  have lk: "links (insert ?p (set ?fl1)) \<subseteq> links (set fl) \<union> ?R"
    using b bp set_remove1_subset [of ?p fl] by (fastforce simp: links_def)
  have "frame ((links (set fl) \<union> ?R) \<union> links (insert ?p (set ?fl1))) s s'"
    by (intro frame_trans [OF frame_trans [OF r(3) f13] ins(3)])
  then have "frame (links (set fl) \<union> ?R) s s'"
    using lk by (simp add: Un_absorb2)
  then show "frame (links (set fl) \<union> {x - psz - 4..<x + sz - 4}) s s'"
    by (simp add: add.assoc)
qed

lemma coalesce_case4:
  assumes c: "coal_pre s a0 (pre @ [(psz, False)]) sz ((nsz, False) # post) fl"
    and x: "x = a0 + total pre + psz"
  defines "s1 \<equiv> allocate_block s (W (x + sz))"
  defines "s2 \<equiv> allocate_block s1 (W (x - psz))"
  defines "m4 \<equiv> PUT (PUT (mem s2) (W (x - psz - 4)) (tagw (sz + (psz + nsz)) False))
                    (W (x + sz + nsz - 8)) (tagw (sz + (psz + nsz)) False)"
  defines "s' \<equiv> free_block (s2\<lparr>mem := m4\<rparr>) (W (x - psz))"
  shows "coalesce_tr s (W x)
           = ([Removed (W (x + sz)), Removed (W (x - psz)), Wrote (W (x - psz - 4)),
               Wrote (W (x + sz + nsz - 8)), Inserted (W (x - psz))], W (x - psz), s')"
    and "heap_inv s' a0 (pre @ (psz + sz + nsz, False) # post)
           ((x - psz) # remove1 (x - psz) (remove1 (x + sz) fl))"
    and "frame (links (set fl) \<union> {x - psz - 4..<x + sz + nsz - 4}) s s'"
proof -
  let ?pre = "pre @ [(psz, False)]"
  let ?post = "(nsz, False) # post"
  let ?bs = "?pre @ (sz, False) # ?post"
  let ?old = "[(psz, False), (sz, False), (nsz, False)]"
  let ?new = "[(psz + sz + nsz, False)]"
  let ?bs' = "pre @ (psz + sz + nsz, False) # post"
  let ?p = "x - psz"
  let ?n = "x + sz"
  have x': "x = a0 + total ?pre" using x by simp
  have p': "?p = a0 + total pre" using x by simp
  from c have t: "tags_ok s a0 ?bs" and fl: "flist_ok s fl"
    and sf: "set fl = set (free_addrs a0 (?pre @ (sz, True) # ?post))"
    and nad: "no_adj (?pre @ (sz, True) # ?post)"
    by (auto simp: coal_pre_def)
  from t have tm: "tagsm (mem s) a0 ?bs" by (simp add: tags_ok_def)
  note b = tagsm_bounds [OF tm, simplified]
  have bp: "16 \<le> psz" "8 dvd psz" "sizes_ok pre" "0 \<le> total pre"
    using b(8) total_nonneg [of pre] by auto
  have bn: "16 \<le> nsz" "8 dvd nsz" "sizes_ok post" "0 \<le> total post"
    using b(9) total_nonneg [of post] by auto
  note g = geometry [OF bp(3) bn(3) p']
  note rd = reads [OF tm x', simplified prev_blk_def next_blk_def, simplified]
  have di: "distinct fl" using fl by (simp add: flist_ok_def)
  have sf0: "set fl = set (free_addrs a0 pre) \<union> {?p, ?n} \<union> set (free_addrs (x + sz + nsz) post)"
    using sf x by (auto simp: free_addrs_append add.assoc)
  have nin: "?n \<in> set fl" using sf0 by simp
  have sub: "set fl \<subseteq> set (addrs a0 ?bs)"
    using sf0 free_addrs_subset [of a0 pre] free_addrs_subset [of "x + sz + nsz" post] x
    by (auto simp: addrs_append add.assoc)
  note r1 = remove_step [OF t fl sub nin, folded s1_def]
  let ?fl1 = "remove1 ?n fl"
  have pin: "?p \<in> set ?fl1" using sf0 di b bp by auto
  have sub1: "set ?fl1 \<subseteq> set (addrs a0 ?bs)"
    using sub set_remove1_subset [of ?n fl] by blast
  note r2 = remove_step [OF r1(1) r1(2) sub1 pin, folded s2_def]
  let ?fl2 = "remove1 ?p ?fl1"
  have nn: "?p \<notin> set (free_addrs a0 pre)" "?p \<notin> set (free_addrs (x + sz + nsz) post)"
    "?n \<notin> set (free_addrs a0 pre)" "?n \<notin> set (free_addrs (x + sz + nsz) post)"
    using g(3) [of ?p] g(4) [of ?p "psz + sz + nsz"] g(3) [of ?n] g(4) [of ?n "psz + sz + nsz"]
      b bp bn x by (auto simp: add.assoc)
  have sf2: "set ?fl2 = set (free_addrs a0 pre) \<union> set (free_addrs (x + sz + nsz) post)"
    using di sf0 nn by auto
  have sub2: "set ?fl2 \<subseteq> set (addrs a0 pre) \<union> set (addrs (?p + total ?old) post)"
    using sf2 free_addrs_subset [of a0 pre] free_addrs_subset [of "x + sz + nsz" post]
    by (auto simp: add.assoc)
  have tm1: "tagsm (mem s1) a0 ?bs" using r1(1) by (simp add: tags_ok_def)
  have tm2: "tagsm (mem s2) a0 ?bs" using r2(1) by (simp add: tags_ok_def)
  note rd1 = reads [OF tm1 x', simplified prev_blk_def next_blk_def, simplified]
  note rd2 = reads [OF tm2 x', simplified prev_blk_def next_blk_def, simplified]
  note pv2 = tagsm_prev [OF tm2 x', simplified prev_blk_def, simplified]
  note hr2 = tagsm_here [OF tm2 x', simplified]
  note nx2 = tagsm_next [OF tm2 x', simplified next_blk_def, simplified]
  let ?m2 = "mem s2"
  let ?m3 = "PUT ?m2 (W (x - psz - 4)) (tagw (sz + (psz + nsz)) False)"
  have e1: "NEXT_BLKP ?m3 (W x) = W (x + sz)"
    using hr2(1) b bp bn x by (intro NEXT_BLKP_W [where al = False]) (auto simp: GET_PUT_W_if)
  have e2: "FTRP ?m3 (W (x + sz)) = W (x + sz + nsz - 8)"
    using FTRP_W [of ?m3 "x + sz" nsz False] nx2(1) b bp bn x
    by (simp add: GET_PUT_W_if)
  have e3: "PREV_BLKP m4 (W x) = W (x - psz)"
    unfolding m4_def
    using pv2(1) b bp bn x by (intro PREV_BLKP_W [where al = False]) (auto simp: GET_PUT_W_if)
  have tr: "coalesce_tr s (W x)
           = ([Removed (W ?n), Removed (W ?p), Wrote (W (x - psz - 4)),
               Wrote (W (x + sz + nsz - 8)), Inserted (W ?p)], W ?p, s')"
    using rd rd1 rd2 e1 e2 e3 [unfolded m4_def]
    by (simp add: coalesce_tr_def Let_def PUTs_def PACK_tag s'_def m4_def
          s1_def [symmetric] s2_def [symmetric])
  show "coalesce_tr s (W x)
           = ([Removed (W ?n), Removed (W ?p), Wrote (W (x - psz - 4)),
               Wrote (W (x + sz + nsz - 8)), Inserted (W ?p)], W ?p, s')" by (rule tr)
  let ?R = "{?p - 4..<?p + total ?old - 4}"
  have fr: "same_out ?R ?m2 m4"
  proof -
    have "same_out ?R ?m2 ?m3" using b bp bn x by (intro PUT_region_step) auto
    then show ?thesis unfolding m4_def using b bp bn x by (intro PUT_region_step) auto
  qed
  have ts: "tseg m4 ?p ?new"
    unfolding m4_def using b bp bn x by (simp add: GET_PUT_W_if add.commute add.left_commute)
  have t2: "tags_ok s2 a0 (pre @ ?old @ post)" using r2(1) by simp
  note rt = retag_step [OF t2 r2(2) p' sub2 fr _ ts]
  let ?s4 = "s2\<lparr>mem := m4\<rparr>"
  have t4: "tags_ok ?s4 a0 ?bs'" and f4: "flist_ok ?s4 ?fl2"
    using rt b bp bn by auto
  have xn: "?p \<notin> set ?fl2"
    using sf2 nn by auto
  have sub4: "insert ?p (set ?fl2) \<subseteq> set (addrs a0 ?bs')"
    using sf2 free_addrs_subset [of a0 pre] free_addrs_subset [of "x + sz + nsz" post] x
    by (auto simp: addrs_append add.assoc)
  note ins = insert_step [OF t4 f4 sub4 xn, folded s'_def]
  have na': "no_adj ?bs'"
    using nad by (auto simp: no_adj_append no_adj_Cons)
  have sf': "set (?p # ?fl2) = set (free_addrs a0 ?bs')"
    using sf2 x by (simp add: free_addrs_mid add.assoc)
  show "heap_inv s' a0 ?bs' (?p # ?fl2)"
    unfolding heap_inv_def using ins na' sf' by blast
  have f24: "frame ?R s2 ?s4" using fr by (simp add: frame_def)
  have l1: "links (set ?fl1) \<subseteq> links (set fl)"
    using set_remove1_subset [of ?n fl] by (fastforce simp: links_def)
  have f02: "frame (links (set fl)) s s2"
    using frame_trans [OF r1(3) frame_mono [OF r2(3) l1]] by simp
  have lk: "links (insert ?p (set ?fl2)) \<subseteq> links (set fl) \<union> ?R"
    using b bp set_remove1_subset [of ?p ?fl1] set_remove1_subset [of ?n fl]
    by (fastforce simp: links_def)
  have "frame ((links (set fl) \<union> ?R) \<union> links (insert ?p (set ?fl2))) s s'"
    by (intro frame_trans [OF frame_trans [OF f02 f24] ins(3)])
  then have "frame (links (set fl) \<union> ?R) s s'"
    using lk by (simp add: Un_absorb2)
  then show "frame (links (set fl) \<union> {x - psz - 4..<x + sz + nsz - 4}) s s'"
    by (simp add: add.assoc)
qed

lemma find_fit_loop_chain:
  assumes "chain (mem s) p bs" "0 \<le> m_freecount s"
  shows "find_fit_loop s asize p = Some (first_fit (mem s) asize bs)"
  using assms(1)
proof (induction bs arbitrary: p)
  case Nil
  then show ?case
    using assms(2) by (subst find_fit_loop.simps) (simp add: first_fit_def)
next
  case (Cons b bs)
  from Cons.prems have p: "p = b" "b \<noteq> NULL" and c: "chain (mem s) (SUCC (mem s) b) bs"
    by auto
  have ih: "find_fit_loop s asize (SUCC (mem s) b) = Some (first_fit (mem s) asize bs)"
    using c by (rule Cons.IH)
  show ?case
    using assms(2) p ih
    by (subst find_fit_loop.simps) (simp add: first_fit_def)
qed

lemma find_all_true:
  "\<forall>b\<in>set bs. P b \<Longrightarrow> find (\<lambda>b. P b \<and> Q b) bs = find Q bs"
  by (induction bs) auto

lemma dseg_chain:
  assumes "dseg m pr p fl 0" "\<forall>y\<in>set fl. W y \<noteq> 0"
  shows "chain m p (map W fl)"
  using assms by (induction fl arbitrary: pr p) (auto simp: NULL_def)

lemma free_addrs_split:
  "y \<in> set (free_addrs a0 bs) \<Longrightarrow> \<exists>pre csz post. bs = pre @ (csz, False) # post \<and> y = a0 + total pre"
proof (induction bs arbitrary: a0)
  case Nil
  then show ?case by simp
next
  case (Cons b bs)
  show ?case
  proof (cases "\<not> snd b \<and> y = a0")
    case True
    then have "b # bs = [] @ (fst b, False) # bs \<and> y = a0 + total []" by (cases b) auto
    then show ?thesis by blast
  next
    case False
    then have "y \<in> set (free_addrs (a0 + fst b) bs)" using Cons.prems by (auto split: if_splits)
    from Cons.IH [OF this] obtain pre csz post where
      "bs = pre @ (csz, False) # post" "y = a0 + fst b + total pre" by blast
    then have "b # bs = (b # pre) @ (csz, False) # post \<and> y = a0 + total (b # pre)" by simp
    then show ?thesis by blast
  qed
qed

lemma addrs_split:
  "y \<in> set (addrs a0 bs) \<Longrightarrow> \<exists>pre b post. bs = pre @ b # post \<and> y = a0 + total pre"
proof (induction bs arbitrary: a0)
  case Nil
  then show ?case by simp
next
  case (Cons b bs)
  show ?case
  proof (cases "y = a0")
    case True
    then have "b # bs = [] @ b # bs \<and> y = a0 + total []" by auto
    then show ?thesis by blast
  next
    case False
    then have "y \<in> set (addrs (a0 + fst b) bs)" using Cons.prems by auto
    from Cons.IH [OF this] obtain pre c post where
      "bs = pre @ c # post" "y = a0 + fst b + total pre" by blast
    then have "b # bs = (b # pre) @ c # post \<and> y = a0 + total (b # pre)" by simp
    then show ?thesis by blast
  qed
qed

lemma heap_inv_sep:
  assumes "heap_inv s a0 bs fl"
  shows "sep (set fl)" "\<forall>y\<in>set fl. W y \<noteq> 0" "set fl \<subseteq> set (addrs a0 bs)"
proof -
  show sub: "set fl \<subseteq> set (addrs a0 bs)"
    using assms free_addrs_subset by (auto simp: heap_inv_def)
  show sp: "sep (set fl)" using assms sub by (intro tags_ok_sep) (auto simp: heap_inv_def)
  show "\<forall>y\<in>set fl. W y \<noteq> 0" using sepD(5) [OF sp] by blast
qed

lemma free_block_reads:
  assumes "heap_inv s a0 (pre @ (csz, False) # post) fl" "y = a0 + total pre"
  shows "GET_ALLOC (mem s) (HDRP (W y)) = 0" "GET_SIZE (mem s) (HDRP (W y)) = W csz"
    "0 \<le> csz" "csz < 4294967296" "16 \<le> csz" "8 dvd csz" "8 dvd y" "16 \<le> y" "y < 4294967296"
proof -
  from assms have tm: "tagsm (mem s) a0 (pre @ (csz, False) # post)"
    by (simp add: heap_inv_def tags_ok_def)
  note b = tagsm_bounds [OF tm, simplified]
  note h = tagsm_here [OF tm assms(2), simplified]
  show "GET_ALLOC (mem s) (HDRP (W y)) = 0"
    using GET_ALLOC_tag [OF h(1)] b by simp
  show "GET_SIZE (mem s) (HDRP (W y)) = W csz"
    using GET_SIZE_tag [OF h(1)] b by simp
  show "0 \<le> csz" "csz < 4294967296" "16 \<le> csz" "8 dvd csz" "8 dvd y" "16 \<le> y" "y < 4294967296"
    using b assms(2) by auto
qed

lemma find_fit_inv:
  assumes inv: "heap_inv s a0 bs fl"
  shows "find_fit s asize
      = Some (case find (\<lambda>y. asize \<le> GET_SIZE (mem s) (HDRP (W y))) fl of
                None \<Rightarrow> 0 | Some y \<Rightarrow> W y)"
proof -
  from inv have ds: "dseg (mem s) 0 (mp_firstfreeblock s) fl 0"
    and cnt: "0 \<le> m_freecount s" and sf: "set fl = set (free_addrs a0 bs)"
    by (auto simp: heap_inv_def flist_ok_def)
  have ch: "chain (mem s) (mp_firstfreeblock s) (map W fl)"
    using ds heap_inv_sep(2) [OF inv] by (rule dseg_chain)
  have fr: "\<forall>y\<in>set fl. GET_ALLOC (mem s) (HDRP (W y)) = 0"
  proof
    fix y assume "y \<in> set fl"
    then obtain pre csz post where "bs = pre @ (csz, False) # post" "y = a0 + total pre"
      using sf free_addrs_split by blast
    then show "GET_ALLOC (mem s) (HDRP (W y)) = 0"
      using free_block_reads(1) [of s a0 pre csz post fl y] inv by simp
  qed
  have "find (\<lambda>b. GET_ALLOC (mem s) (HDRP b) = 0 \<and> asize \<le> GET_SIZE (mem s) (HDRP b)) (map W fl)
      = map_option W (find (\<lambda>y. asize \<le> GET_SIZE (mem s) (HDRP (W y))) fl)"
    using fr by (induction fl) auto
  then show ?thesis
    using find_fit_loop_chain [OF ch cnt, of asize]
    by (simp add: find_fit_def first_fit_def NULL_def split: option.splits)
qed

lemma alloc_list_append:
  "alloc_list a (xs @ ys) = alloc_list a xs @ alloc_list (a + total xs) ys"
  by (induction xs arbitrary: a) (auto simp: algebra_simps)

lemma coalesce_ok:
  assumes c: "coal_pre s a0 pre sz post fl" and x: "x = a0 + total pre"
  shows "\<exists>pre' rsz post' fl'.
      coalesce s (W x) = (W (a0 + total pre'), snd (coalesce s (W x)))
    \<and> heap_inv (snd (coalesce s (W x))) a0 (pre' @ (rsz, False) # post') fl'
    \<and> a0 + total pre' \<le> x \<and> x + sz \<le> a0 + total pre' + rsz
    \<and> total pre' + rsz + total post' = total pre + sz + total post
    \<and> alloc_list a0 (pre' @ (rsz, False) # post') = alloc_list a0 (pre @ (sz, False) # post)
    \<and> frame (links (set fl) \<union> {a0 + total pre' - 4..<a0 + total pre' + rsz - 4}) s
          (snd (coalesce s (W x)))
    \<and> fl' \<noteq> [] \<and> hd fl' = a0 + total pre'"
proof -
  from c have tm: "tagsm (mem s) a0 (pre @ (sz, False) # post)"
    by (simp add: coal_pre_def tags_ok_def)
  note b = tagsm_bounds [OF tm, simplified]
  have lk: "links (insert x (set fl)) \<subseteq> links (set fl) \<union> {x - 4..<x + sz - 4}"
    using b by (fastforce simp: links_def)
  consider (c1) "snd (prev_blk pre)" "snd (next_blk post)"
    | (c2) nsz post' where "snd (prev_blk pre)" "post = (nsz, False) # post'"
    | (c3) psz pre' where "pre = pre' @ [(psz, False)]" "snd (next_blk post)"
    | (c4) psz pre' nsz post' where "pre = pre' @ [(psz, False)]" "post = (nsz, False) # post'"
  proof -
    have p: "snd (prev_blk pre) \<or> (\<exists>psz pre'. pre = pre' @ [(psz, False)])"
      by (cases pre rule: rev_cases) (auto simp: prev_blk_def)
    have n: "snd (next_blk post) \<or> (\<exists>nsz post'. post = (nsz, False) # post')"
      by (cases post) (auto simp: next_blk_def)
    from p n show ?thesis using that by blast
  qed
  then show ?thesis
  proof cases
    case c1
    note k = coalesce_case1 [OF c x c1]
    have "frame (links (set fl) \<union> {a0 + total pre - 4..<a0 + total pre + sz - 4}) s
            (free_block s (W x))"
      using frame_mono [OF k(3) lk] x by simp
    then show ?thesis
      using k(1,2) x
      by (intro exI [of _ pre] exI [of _ sz] exI [of _ post] exI [of _ "x # fl"])
         (simp add: coalesce_def)
  next
    case c2
    note k = coalesce_case2 [OF c [unfolded c2(2)] x c2(1)]
    from b c2 have bn: "0 \<le> nsz" by auto
    show ?thesis
      using k x bn unfolding c2(2)
      by (intro exI [of _ pre] exI [of _ "sz + nsz"] exI [of _ post']
            exI [of _ "x # remove1 (x + sz) fl"])
         (simp add: coalesce_def alloc_list_append add.assoc)
  next
    case c3
    have x3: "x = a0 + total pre' + psz" using x c3(1) by simp
    note k = coalesce_case3 [OF c [unfolded c3(1)] x3 c3(2)]
    from b c3 have bp: "0 \<le> psz" by auto
    have e: "a0 + total pre' = x - psz" using x3 by simp
    show ?thesis
      using k bp unfolding c3(1) e
      by (intro exI [of _ pre'] exI [of _ "psz + sz"] exI [of _ post]
            exI [of _ "(x - psz) # remove1 (x - psz) fl"])
         (simp add: coalesce_def alloc_list_append e add.assoc)
  next
    case c4
    have x4: "x = a0 + total pre' + psz" using x c4(1) by simp
    note k = coalesce_case4 [OF c [unfolded c4(1) c4(2)] x4]
    from b c4 have bp: "0 \<le> psz" "0 \<le> nsz" by auto
    have e: "a0 + total pre' = x - psz" using x4 by simp
    show ?thesis
      using k bp unfolding c4(1) c4(2) e
      by (intro exI [of _ pre'] exI [of _ "psz + sz + nsz"] exI [of _ post']
            exI [of _ "(x - psz) # remove1 (x - psz) (remove1 (x + sz) fl)"])
         (simp add: coalesce_def alloc_list_append e add.assoc)
  qed
qed

lemma mm_free_ok:
  assumes inv: "heap_inv s a0 (pre @ (sz, True) # post) fl" and x: "x = a0 + total pre"
  shows "\<exists>pre' rsz post' fl'.
      heap_inv (mm_free s (W x)) a0 (pre' @ (rsz, False) # post') fl'
    \<and> a0 + total pre' \<le> x \<and> x + sz \<le> a0 + total pre' + rsz
    \<and> total pre' + rsz + total post' = total pre + sz + total post
    \<and> alloc_list a0 (pre' @ (rsz, False) # post') = alloc_list a0 pre @ alloc_list (x + sz) post
    \<and> frame (links (set fl) \<union> {a0 + total pre' - 4..<a0 + total pre' + rsz - 4}) s
          (mm_free s (W x))
    \<and> fl' \<noteq> [] \<and> hd fl' = a0 + total pre'"
proof -
  let ?bs = "pre @ (sz, True) # post"
  from inv have t: "tags_ok s a0 ?bs" and fl: "flist_ok s fl"
    and sf: "set fl = set (free_addrs a0 ?bs)" and na: "no_adj ?bs"
    by (auto simp: heap_inv_def)
  from t have tm: "tagsm (mem s) a0 ?bs" by (simp add: tags_ok_def)
  note b = tagsm_bounds [OF tm, simplified]
  note h = tagsm_here [OF tm x, simplified]
  let ?m1 = "PUT (mem s) (W (x - 4)) (tagw sz False)"
  let ?m2 = "PUT ?m1 (W (x + sz - 8)) (tagw sz False)"
  let ?s2 = "s\<lparr>mem := ?m2\<rparr>"
  have cs: "GET_SIZE (mem s) (W (x - 4)) = W sz"
    using h(1) b by (intro GET_SIZE_tag) auto
  have e1: "FTRP ?m1 (W x) = W (x + sz - 8)"
    using b by (intro FTRP_W [where al = False]) (auto simp: GET_PUT_same)
  have fe: "mm_free s (W x) = snd (coalesce ?s2 (W x))"
    using cs e1 by (simp add: mm_free_def Let_def PUTs_def PACK_tag)
  let ?R = "{x - 4..<x + total [(sz, True)] - 4}"
  have fr: "same_out ?R (mem s) ?m2"
  proof -
    have "same_out ?R (mem s) ?m1" using b x by (intro PUT_region_step) auto
    then show ?thesis using b x by (intro PUT_region_step) auto
  qed
  have ts: "tseg ?m2 x [(sz, False)]"
    using b x by (simp add: GET_PUT_W_if)
  have sub: "set fl \<subseteq> set (addrs a0 pre) \<union> set (addrs (x + total [(sz, True)]) post)"
    using sf free_addrs_subset [of a0 pre] free_addrs_subset [of "x + sz" post] x
    by (auto simp: free_addrs_mid)
  have t1: "tags_ok s a0 (pre @ [(sz, True)] @ post)" using t by simp
  note rt = retag_step [OF t1 fl x sub fr _ ts]
  have cp: "coal_pre ?s2 a0 pre sz post fl"
    using rt b sf na by (auto simp: coal_pre_def)
  from coalesce_ok [OF cp x] obtain pre' rsz post' fl' where k:
    "heap_inv (snd (coalesce ?s2 (W x))) a0 (pre' @ (rsz, False) # post') fl'"
    "a0 + total pre' \<le> x" "x + sz \<le> a0 + total pre' + rsz"
    "total pre' + rsz + total post' = total pre + sz + total post"
    "alloc_list a0 (pre' @ (rsz, False) # post') = alloc_list a0 (pre @ (sz, False) # post)"
    "frame (links (set fl) \<union> {a0 + total pre' - 4..<a0 + total pre' + rsz - 4}) ?s2
          (snd (coalesce ?s2 (W x)))"
    "fl' \<noteq> []" "hd fl' = a0 + total pre'"
    by blast
  have f02: "frame ?R s ?s2" using fr by (simp add: frame_def)
  have Rs: "?R \<subseteq> links (set fl) \<union> {a0 + total pre' - 4..<a0 + total pre' + rsz - 4}"
    using k(2,3) by auto
  have fr': "frame (links (set fl) \<union> {a0 + total pre' - 4..<a0 + total pre' + rsz - 4}) s
          (mm_free s (W x))"
    unfolding fe using frame_trans [OF f02 k(6)] Rs by (simp add: Un_absorb1)
  show ?thesis
    using k(1-5,7,8) fr' x unfolding fe [symmetric]
    by (intro exI [of _ pre'] exI [of _ rsz] exI [of _ post'] exI [of _ fl'])
       (simp add: alloc_list_append)
qed

lemma sbrk_cond:
  assumes "0 \<le> e" "e < 4294967296" "0 \<le> n" "n < 4294967296"
  shows "(unat (mx :: 32 word) < unat (W e) + unat (W n)) = (uint mx < e + n)"
proof -
  have "int (unat (W e) + unat (W n)) = e + n" using assms by (simp add: unat_W)
  moreover have "int (unat mx) = uint mx" by simp
  ultimately show ?thesis by linarith
qed

lemma W_not_m1: "0 \<le> e \<Longrightarrow> e < 4294967296 \<Longrightarrow> 8 dvd e \<Longrightarrow> W e \<noteq> - 1"
proof
  assume a: "0 \<le> e" "e < 4294967296" "8 dvd e" "W e = - 1"
  have "(- 1 :: 32 word) = W 4294967295" by (simp add: W_def)
  then have "e = 4294967295" using a W_eq [of e 4294967295] by simp
  then show False using a(3) by simp
qed

lemma extend_heap_fail:
  assumes t: "tags_ok s a0 bs"
    and n: "0 \<le> n" "n < 4294967296"
    and w: "(if w mod 2 \<noteq> 0 then (w + 1) * WSIZE else w * WSIZE) = W n"
    and full: "uint (mem_max_addr s) < a0 + total bs + n"
  shows "extend_heap s w = (NULL, s)"
proof -
  from t have b: "16 \<le> a0" "a0 + total bs < 4294967296" "sizes_ok bs"
    "mem_brk s = W (a0 + total bs)"
    by (auto simp: tags_ok_def tagsm_def)
  note tn = total_nonneg [OF b(3)]
  have "unat (mem_max_addr s) < unat (W (a0 + total bs)) + unat (W n)"
    using b tn n full by (subst sbrk_cond) auto
  then show ?thesis
    using w b by (simp add: extend_heap_def mem_sbrk_def Let_def)
qed

lemma extend_heap_ok:
  assumes inv: "heap_inv s a0 bs fl"
    and n: "16 \<le> n" "8 dvd n"
    and w: "(if w mod 2 \<noteq> 0 then (w + 1) * WSIZE else w * WSIZE) = W n"
    and room: "a0 + total bs + n \<le> uint (mem_max_addr s)"
  shows "\<exists>pre' rsz post' fl'.
      extend_heap s w = (W (a0 + total pre'), snd (extend_heap s w))
    \<and> heap_inv (snd (extend_heap s w)) a0 (pre' @ (rsz, False) # post') fl'
    \<and> n \<le> rsz \<and> a0 + total pre' \<le> a0 + total bs
    \<and> a0 + total bs + n \<le> a0 + total pre' + rsz
    \<and> total pre' + rsz + total post' = total bs + n
    \<and> alloc_list a0 (pre' @ (rsz, False) # post') = alloc_list a0 bs
    \<and> same_out (links (set fl) \<union> {a0 + total pre' - 4..<a0 + total bs + n}) (mem s)
          (mem (snd (extend_heap s w)))
    \<and> fl' \<noteq> [] \<and> hd fl' = a0 + total pre'"
proof -
  from inv have t: "tags_ok s a0 bs" and fl: "flist_ok s fl"
    and sf: "set fl = set (free_addrs a0 bs)" and na: "no_adj bs"
    by (auto simp: heap_inv_def)
  from t have tm: "tagsm (mem s) a0 bs" by (simp add: tags_ok_def)
  from t have b: "16 \<le> a0" "8 dvd a0" "a0 + total bs < 4294967296" "sizes_ok bs"
    "mem_brk s = W (a0 + total bs)" "p_heap_list s = W (a0 - 8)"
    and pro: "GET (mem s) (W (a0 - 12)) = tagw 8 True" "GET (mem s) (W (a0 - 8)) = tagw 8 True"
    and tsb: "tseg (mem s) a0 bs"
    by (auto simp: tags_ok_def tagsm_def)
  note tn = total_nonneg [OF b(4)]
  note td = total_dvd [OF b(4)]
  define e where "e = a0 + total bs"
  have eb: "16 \<le> e" "8 dvd e" "e + n < 4294967296" "e < 4294967296"
    using b tn td n room uint_lt2p [of "mem_max_addr s"] by (auto simp: e_def)
  have ok: "\<not> unat (mem_max_addr s) < unat (W e) + unat (W n)"
    using eb n room by (subst sbrk_cond) (auto simp: e_def)
  have ne: "W e \<noteq> - 1" using eb by (intro W_not_m1) auto
  let ?m1 = "PUT (mem s) (W (e - 4)) (tagw n False)"
  let ?m2 = "PUT ?m1 (W (e + n - 8)) (tagw n False)"
  let ?m3 = "PUT ?m2 (W (e + n - 4)) (tagw 0 True)"
  let ?s3 = "s\<lparr>mem_brk := W (e + n), mem := ?m3\<rparr>"
  have e1: "FTRP ?m1 (W e) = W (e + n - 8)"
    using n by (intro FTRP_W [where al = False]) (auto simp: GET_PUT_same)
  have e2: "NEXT_BLKP ?m2 (W e) = W (e + n)"
    using n eb by (intro NEXT_BLKP_W [where al = False]) (auto simp: GET_PUT_W_if)
  have p01: "PACK 0 1 = tagw 0 True" by (simp add: tagw_def)
  have ex: "extend_heap s w = coalesce ?s3 (W e)"
    using w ok ne e1 e2 b(5)
    by (simp add: extend_heap_def mem_sbrk_def Let_def PUTs_def PACK_tag p01 e_def [symmetric])
  let ?R = "{e - 4..<e + n}"
  have fr: "same_out ?R (mem s) ?m3"
  proof -
    have "same_out ?R (mem s) ?m1" using eb n by (intro PUT_region_step) auto
    then have "same_out ?R (mem s) ?m2" using eb n by (intro PUT_region_step) auto
    then show ?thesis using eb n by (intro PUT_region_step) auto
  qed
  have g1: "GET ?m3 (W (a0 - 12)) = GET (mem s) (W (a0 - 12))"
    using b tn by (intro GET_same_out [OF fr]) (auto simp: e_def)
  have g2: "GET ?m3 (W (a0 - 8)) = GET (mem s) (W (a0 - 8))"
    using b tn by (intro GET_same_out [OF fr]) (auto simp: e_def)
  have g3: "tseg ?m3 a0 bs = tseg (mem s) a0 bs"
    using b tn by (intro tseg_frame_coarse [OF fr]) (auto simp: e_def)
  have g4: "tseg ?m3 e [(n, False)]"
    using eb n by (simp add: GET_PUT_W_if)
  have g5: "GET ?m3 (W (e + n - 4)) = tagw 0 True" by (simp add: GET_PUT_same)
  have tm3: "tagsm ?m3 a0 (bs @ [(n, False)])"
    using b eb n pro tsb g1 g2 g3 g4 g5
    by (simp add: tagsm_def tseg_append e_def add.assoc)
  have t3: "tags_ok ?s3 a0 (bs @ (n, False) # [])"
    using tm3 b room by (simp add: tags_ok_def e_def add.assoc)
  have sub: "set fl \<subseteq> set (addrs a0 bs)" using sf free_addrs_subset by blast
  have "dseg ?m3 0 (mp_firstfreeblock s) fl 0 = dseg (mem s) 0 (mp_firstfreeblock s) fl 0"
  proof (rule dseg_frame [OF fr], intro ballI)
    fix y assume "y \<in> set fl"
    then have "a0 \<le> y \<and> y + 16 \<le> e"
      using sub addrs_bounds [OF b(4), of y a0] by (auto simp: e_def)
    then show "0 \<le> y \<and> y + 8 \<le> 4294967296 \<and> (\<forall>n. y \<le> n \<and> n < y + 8 \<longrightarrow> n \<notin> ?R)"
      using b eb by auto
  qed
  then have f3: "flist_ok ?s3 fl" using fl by (simp add: flist_ok_def)
  have na3: "no_adj (bs @ (n, True) # [])" using na by (simp add: no_adj_append)
  have sf3: "set fl = set (free_addrs a0 (bs @ (n, True) # []))"
    using sf by (simp add: free_addrs_append)
  have cp: "coal_pre ?s3 a0 bs n [] fl"
    using t3 f3 na3 sf3 by (simp add: coal_pre_def)
  from coalesce_ok [OF cp e_def] obtain pre' rsz post' fl' where k:
    "coalesce ?s3 (W e) = (W (a0 + total pre'), snd (coalesce ?s3 (W e)))"
    "heap_inv (snd (coalesce ?s3 (W e))) a0 (pre' @ (rsz, False) # post') fl'"
    "a0 + total pre' \<le> e" "e + n \<le> a0 + total pre' + rsz"
    "total pre' + rsz + total post' = total bs + n + total []"
    "alloc_list a0 (pre' @ (rsz, False) # post') = alloc_list a0 (bs @ (n, False) # [])"
    "frame (links (set fl) \<union> {a0 + total pre' - 4..<a0 + total pre' + rsz - 4}) ?s3
          (snd (coalesce ?s3 (W e)))"
    "fl' \<noteq> []" "hd fl' = a0 + total pre'"
    by blast
  have tq: "0 \<le> total post'"
    using k(2) total_nonneg [of post'] by (auto simp: heap_inv_def tags_ok_def tagsm_def)
  let ?Q = "links (set fl) \<union> {a0 + total pre' - 4..<a0 + total bs + n}"
  have so1: "same_out (?R \<union> (links (set fl) \<union> {a0 + total pre' - 4..<a0 + total pre' + rsz - 4}))
          (mem s) (mem (snd (coalesce ?s3 (W e))))"
    using same_out_trans [OF fr] k(7) by (simp add: frame_def)
  have sb: "?R \<union> (links (set fl) \<union> {a0 + total pre' - 4..<a0 + total pre' + rsz - 4}) \<subseteq> ?Q"
    using k(3,4,5) tq by (auto simp: e_def)
  have so: "same_out ?Q (mem s) (mem (snd (coalesce ?s3 (W e))))"
    by (rule same_out_mono [OF so1 sb])
  show ?thesis
    unfolding ex using k(1,2,6,8,9) k(3,4,5) so tq
    by (intro exI [of _ pre'] exI [of _ rsz] exI [of _ post'] exI [of _ fl'])
       (auto simp: alloc_list_append e_def)
qed

lemma adj_props:
  assumes "0 \<le> n" "n \<le> 4294967280"
  shows "16 \<le> adj n" "8 dvd adj n" "n + 8 \<le> adj n" "adj n \<le> n + 16" "adj n < 4294967296"
  using assms by (auto simp: adj_def)

lemma W_div8: "0 \<le> a \<Longrightarrow> a < 4294967296 \<Longrightarrow> W a div 8 = W (a div 8)"
proof -
  assume a: "0 \<le> a" "a < 4294967296"
  have "uint (W a div 8) = a div 8" using a by (simp add: uint_div uint_W)
  then have "W (uint (W a div 8)) = W (a div 8)" by simp
  then show ?thesis by (simp only: W_uint)
qed

lemma adjust_size_W:
  assumes "uint sz \<le> 4294967280"
  shows "adjust_size sz = W (adj (uint sz))"
proof -
  have u: "0 \<le> uint sz" by simp
  have le: "(sz \<le> 8) = (uint sz \<le> 8)" by (simp add: word_le_def)
  have s15: "sz + 8 + 7 = W (uint sz + 15)" by (simp add: W_def)
  have d: "W (uint sz + 15) div 8 = W ((uint sz + 15) div 8)"
    using assms u by (intro W_div8) auto
  have m: "8 * W ((uint sz + 15) div 8) = W (8 * ((uint sz + 15) div 8))"
    by (simp add: W_def)
  show ?thesis
    using le s15 d m by (simp add: adjust_size_def adj_def DSIZE_def OVERHEAD_def)
qed

lemma MAX_sz_W:
  assumes "0 \<le> a" "a < 4294967296"
  shows "MAX_sz (W a) CHUNKSIZE = W (max a 4096)"
proof -
  have "(W 4096 < W a) = (4096 < a)" using assms by (intro W_less) auto
  then show ?thesis by (auto simp: MAX_sz_def CHUNKSIZE_def max_def)
qed

lemma words_of_size:
  assumes "0 \<le> n" "n < 4294967296" "8 dvd n"
  shows "(if (W n div WSIZE) mod 2 \<noteq> 0 then (W n div WSIZE + 1) * WSIZE else (W n div WSIZE) * WSIZE)
         = W n"
proof -
  have "8 dvd nat n" using assms(1,3) by presburger
  then have "8 dvd unat (W n)" using assms by (simp add: unat_W)
  from aligned_request [OF this] show ?thesis by (simp add: WSIZE_def)
qed

lemma alloc_list_addrs: "fst ` set (alloc_list a bs) \<subseteq> set (addrs a bs)"
  by (induction bs arbitrary: a) auto

lemma find_SomeD: "find P xs = Some y \<Longrightarrow> y \<in> set xs \<and> P y"
  by (induction xs) (auto split: if_splits)

lemma place_ok:
  assumes inv: "heap_inv s a0 (pre @ (csz, False) # post) fl" and x: "x = a0 + total pre"
    and asz: "16 \<le> asz" "8 dvd asz" "asz \<le> csz"
  shows "\<exists>bsz post' fl'.
      heap_inv (place s (W x) (W asz)) a0 (pre @ (bsz, True) # post') fl'
    \<and> asz \<le> bsz \<and> bsz \<le> csz \<and> bsz + total post' = csz + total post
    \<and> alloc_list (x + bsz) post' = alloc_list (x + csz) post
    \<and> frame (links (set fl) \<union> {x - 4..<x + csz - 4}) s (place s (W x) (W asz))"
proof (cases "16 \<le> csz - asz")
  case True
  note k = place_split [OF inv x asz(1,2) True]
  show ?thesis
    using k asz
    by (intro exI [of _ asz] exI [of _ "(csz - asz, False) # post"]
          exI [of _ "(x + asz) # remove1 x fl"]) simp
next
  case False
  then have "csz - asz < 16" by simp
  note k = place_whole [OF inv x asz this]
  show ?thesis
    using k asz
    by (intro exI [of _ csz] exI [of _ post] exI [of _ "remove1 x fl"]) simp
qed

lemma alloc_list_bounds:
  "sizes_ok bs \<Longrightarrow> (z, zs) \<in> set (alloc_list a bs) \<Longrightarrow> a \<le> z \<and> z + zs \<le> a + total bs \<and> 16 \<le> zs"
proof (induction bs arbitrary: a)
  case Nil
  then show ?case by simp
next
  case (Cons b bs)
  have tn: "0 \<le> total bs" using Cons.prems by (intro total_nonneg) simp
  show ?case
  proof (cases "(z, zs) \<in> set (alloc_list (a + fst b) bs)")
    case True
    then have "a + fst b \<le> z \<and> z + zs \<le> a + fst b + total bs \<and> 16 \<le> zs"
      using Cons.prems by (intro Cons.IH) auto
    then show ?thesis using Cons.prems by auto
  next
    case False
    then have "z = a \<and> zs = fst b" using Cons.prems by (auto split: if_splits)
    then show ?thesis using Cons.prems tn by auto
  qed
qed

lemma mm_malloc_zero: "mm_malloc s 0 = Some (NULL, s)"
  by (simp add: mm_malloc_def)

lemma mm_malloc_fit:
  assumes inv: "heap_inv s a0 bs fl" and rng: "uint sz \<le> 4294967280" and nz: "sz \<noteq> 0"
    and f: "find (\<lambda>y. W (adj (uint sz)) \<le> GET_SIZE (mem s) (HDRP (W y))) fl = Some y"
  shows "mm_malloc s sz = Some (W y, place s (W y) (W (adj (uint sz))))"
    and "\<exists>pre csz post. bs = pre @ (csz, False) # post \<and> y = a0 + total pre \<and> adj (uint sz) \<le> csz"
    and "W y \<noteq> 0"
proof -
  let ?asz = "adj (uint sz)"
  note ap = adj_props [OF _ rng, simplified]
  from find_SomeD [OF f] have yin: "y \<in> set fl"
    and fits: "W ?asz \<le> GET_SIZE (mem s) (HDRP (W y))" by auto
  show ny: "W y \<noteq> 0" using heap_inv_sep(2) [OF inv] yin by blast
  have ff: "find_fit s (adjust_size sz) = Some (W y)"
    using find_fit_inv [OF inv, of "W ?asz"] f by (simp add: adjust_size_W [OF rng])
  show "mm_malloc s sz = Some (W y, place s (W y) (W ?asz))"
    using ff ny nz by (simp add: mm_malloc_def Let_def NULL_def adjust_size_W [OF rng])
  from inv yin have "y \<in> set (free_addrs a0 bs)" by (simp add: heap_inv_def)
  then obtain pre csz post where sp: "bs = pre @ (csz, False) # post" "y = a0 + total pre"
    using free_addrs_split by blast
  note fb = free_block_reads [OF inv [unfolded sp(1)] sp(2)]
  have "W ?asz \<le> W csz" using fits fb(2) by simp
  then have "?asz \<le> csz" using ap fb by (subst (asm) W_le) auto
  then show "\<exists>pre csz post. bs = pre @ (csz, False) # post \<and> y = a0 + total pre \<and> ?asz \<le> csz"
    using sp by blast
qed

lemma mm_malloc_nofit:
  assumes inv: "heap_inv s a0 bs fl" and rng: "uint sz \<le> 4294967280" and nz: "sz \<noteq> 0"
    and f: "find (\<lambda>y. W (adj (uint sz)) \<le> GET_SIZE (mem s) (HDRP (W y))) fl = None"
  shows "mm_malloc s sz =
      (let r = extend_heap s (W (max (adj (uint sz)) 4096) div WSIZE)
       in if fst r = NULL then Some (NULL, snd r)
          else Some (fst r, place (snd r) (fst r) (W (adj (uint sz)))))"
proof -
  let ?asz = "adj (uint sz)"
  note ap = adj_props [OF _ rng, simplified]
  have ff: "find_fit s (adjust_size sz) = Some 0"
    using find_fit_inv [OF inv, of "W ?asz"] f by (simp add: adjust_size_W [OF rng])
  have mx: "MAX_sz (W ?asz) CHUNKSIZE = W (max ?asz 4096)"
    using ap by (intro MAX_sz_W) auto
  show ?thesis
    using ff nz mx
    by (simp add: mm_malloc_def Let_def NULL_def adjust_size_W [OF rng] split: prod.splits)
qed

lemma mm_init_ok:
  assumes brk: "mem_brk s0 = W b" and b: "8 \<le> b" "8 dvd b"
    and room: "b + 4112 \<le> uint (mem_max_addr s0)"
  shows "\<exists>s. mm_init s0 = (0, s) \<and> heap_inv s (b + 16) [(4096, False)] [b + 16]
            \<and> mem_max_addr s = mem_max_addr s0"
proof -
  define a0 where "a0 = b + 16"
  have ba: "b = a0 - 16" by (simp add: a0_def)
  have a: "24 \<le> a0" "8 dvd a0" "a0 + 4096 \<le> uint (mem_max_addr s0)" "a0 + 4096 < 4294967296"
    using b room uint_lt2p [of "mem_max_addr s0"] by (auto simp: a0_def)
  have ok1: "\<not> unat (mem_max_addr s0) < unat (W (a0 - 16)) + unat (W 16)"
    using a by (subst sbrk_cond) auto
  have ok2: "\<not> unat (mem_max_addr s0) < unat (W a0) + unat (W 4096)"
    using a by (subst sbrk_cond) auto
  have nz: "W (a0 - 16) \<noteq> 0" using a by (simp add: W_eq_0)
  have nz0: "W a0 \<noteq> 0" using a by (simp add: W_eq_0)
  have ne: "W a0 \<noteq> - 1" using a by (intro W_not_m1) auto
  let ?m1 = "PUT (mem s0) (W (a0 - 16)) 0"
  let ?m2 = "PUT ?m1 (W (a0 - 12)) (tagw 8 True)"
  let ?m3 = "PUT ?m2 (W (a0 - 8)) (tagw 8 True)"
  let ?m4 = "PUT ?m3 (W (a0 - 4)) (tagw 0 True)"
  let ?m5 = "PUT ?m4 (W (a0 - 4)) (tagw 4096 False)"
  let ?m6 = "PUT ?m5 (W (a0 + 4096 - 8)) (tagw 4096 False)"
  let ?m7 = "PUT ?m6 (W (a0 + 4096 - 4)) (tagw 0 True)"
  let ?m9 = "PUT (PUT ?m7 (W (a0 + 4)) 0) (W a0) 0"
  let ?m11 = "PUT (PUT ?m9 (W (a0 + 8)) 0) (W (a0 + 4)) 0"
  have p81: "PACK OVERHEAD 1 = tagw 8 True" by (simp add: tagw_def OVERHEAD_def)
  have p01: "PACK 0 1 = tagw 0 True" by (simp add: tagw_def)
  have e1: "FTRP ?m5 (W a0) = W (a0 + 4096 - 8)"
    using a by (intro FTRP_W [where al = False]) (auto simp: GET_PUT_same)
  have e2: "NEXT_BLKP ?m6 (W a0) = W (a0 + 4096)"
    using a by (intro NEXT_BLKP_W [where al = False]) (auto simp: GET_PUT_W_if)
  have cw: "CHUNKSIZE div WSIZE = 1024" by (simp add: CHUNKSIZE_def WSIZE_def)
  have p40: "PACK 4096 0 = tagw 4096 False" by (simp add: tagw_def)
  have tm7: "tagsm ?m7 a0 ([] @ (4096, False) # [])"
    using a by (simp add: tagsm_def sizes_ok_def total_def GET_PUT_W_if)
  note rd = reads [OF tm7, of a0, simplified]
  have co: "coalesce s (W a0) = (W a0, free_block s (W a0))" if "mem s = ?m7" for s
    using rd that
    by (simp add: coalesce_def coalesce_tr_def Let_def prev_blk_def next_blk_def total_def)
  have fb: "free_block s (W a0) = s\<lparr>m_freecount := m_freecount s + 1,
        mem := PUT (PUT (mem s) (W (a0 + 4)) 0) (W a0) 0, mp_firstfreeblock := W a0\<rparr>"
    if "mp_firstfreeblock s = p_heap_list s" for s
    using that
    by (simp add: free_block_def set_SUCC_def set_PREV_def SUC_PTR_def WSIZE_def NULL_def)
  have cw4: "CHUNKSIZE div 4 = 1024" by (simp add: CHUNKSIZE_def)
  have w12: "12 + W (a0 - 16) = W (a0 - 4)" "8 + W a0 = W (a0 + 8)" by (simp_all add: W_def)
  have ex: "extend_heap s 1024
      = coalesce (s\<lparr>mem_brk := W (a0 + 4096), mem := ?m7\<rparr>) (W a0)"
    if "mem s = ?m4" "mem_brk s = W a0" "mem_max_addr s = mem_max_addr s0" for s
    unfolding extend_heap_def using ok2 ne e1 e2 that
    by (simp add: mem_sbrk_def Let_def PUTs_def p40 p01 WSIZE_def HDRP_def)
  have mi: "\<exists>s. mm_init s0 = (0, s) \<and> mem s = ?m11 \<and> mem_brk s = W (a0 + 4096)
      \<and> p_heap_list s = W (a0 - 8) \<and> mp_firstfreeblock s = W a0 \<and> m_freecount s = 1
      \<and> mem_max_addr s = mem_max_addr s0"
    using ok1 nz nz0 brk
    by (simp add: mm_init_def mem_sbrk_def Let_def PUTs_def p81 p01 WSIZE_def DSIZE_def NULL_def
        ba cw4 w12 ex co fb set_SUCC_def set_PREV_def SUC_PTR_def)
  then obtain s where s: "mm_init s0 = (0, s)" "mem s = ?m11" "mem_brk s = W (a0 + 4096)"
      "p_heap_list s = W (a0 - 8)" "mp_firstfreeblock s = W a0" "m_freecount s = 1"
      "mem_max_addr s = mem_max_addr s0" by blast
  have tm: "tagsm ?m11 a0 [(4096, False)]"
    using a by (simp add: tagsm_def sizes_ok_def total_def GET_PUT_W_if)
  have t: "tags_ok s a0 [(4096, False)]"
    using tm a s by (simp add: tags_ok_def total_def)
  have f: "flist_ok s [a0]"
    using a s by (simp add: flist_ok_def PREV_def SUCC_def SUC_PTR_def WSIZE_def GET_PUT_W_if)
  have "heap_inv s a0 [(4096, False)] [a0]"
    using t f by (simp add: heap_inv_def)
  then show ?thesis using s by (auto simp: a0_def)
qed

lemma st1_init: "mm_init st0 = (0, st1)" and st1_inv: "heap_inv st1 4112 [(4096, False)] [4112]"
  and st1_max: "mem_max_addr st1 = 0x100000"
proof -
  have "\<exists>s. mm_init st0 = (0, s) \<and> heap_inv s (4096 + 16) [(4096, False)] [4096 + 16]
      \<and> mem_max_addr s = mem_max_addr st0"
    by (rule mm_init_ok) (simp_all add: st0_def)
  then obtain s where s: "mm_init st0 = (0, s)" "heap_inv s 4112 [(4096, False)] [4112]"
    "mem_max_addr s = mem_max_addr st0" by auto
  then have e: "st1 = s" by (simp add: st1_def)
  show "mm_init st0 = (0, st1)" using s e by simp
  show "heap_inv st1 4112 [(4096, False)] [4112]" using s e by simp
  show "mem_max_addr st1 = 0x100000" using s e by (simp add: st0_def)
qed

lemma st_list_chain: "chain (mem st_list) (mp_firstfreeblock st_list) [0x1010, 0x1030]"
  by (simp add: st_list_def SUCC_def SUC_PTR_def WSIZE_def NULL_def GET_def PUT_def)

lemma st_list_hdr: "GET (mem st_list) (HDRP 0x1010) = 16" "GET (mem st_list) (HDRP 0x1030) = 32"
  by (simp_all add: st_list_def HDRP_def WSIZE_def GET_def PUT_def)

lemma free_retag:
  assumes inv: "heap_inv s a0 (pre @ (sz, True) # post) fl" and x: "x = a0 + total pre"
  defines "sR \<equiv> s\<lparr>mem := PUT (PUT (mem s) (W (x - 4)) (tagw sz False)) (W (x + sz - 8)) (tagw sz False)\<rparr>"
  shows "mm_free s (W x) = snd (coalesce sR (W x))"
    and "coal_pre sR a0 pre sz post fl"
    and "frame {x - 4..<x + sz - 4} s sR"
proof -
  let ?bs = "pre @ (sz, True) # post"
  from inv have t: "tags_ok s a0 ?bs" and fl: "flist_ok s fl"
    and sf: "set fl = set (free_addrs a0 ?bs)" and na: "no_adj ?bs"
    by (auto simp: heap_inv_def)
  from t have tm: "tagsm (mem s) a0 ?bs" by (simp add: tags_ok_def)
  note b = tagsm_bounds [OF tm, simplified]
  note h = tagsm_here [OF tm x, simplified]
  let ?m1 = "PUT (mem s) (W (x - 4)) (tagw sz False)"
  let ?m2 = "PUT ?m1 (W (x + sz - 8)) (tagw sz False)"
  have cs: "GET_SIZE (mem s) (W (x - 4)) = W sz"
    using h(1) b by (intro GET_SIZE_tag) auto
  have e1: "FTRP ?m1 (W x) = W (x + sz - 8)"
    using b by (intro FTRP_W [where al = False]) (auto simp: GET_PUT_same)
  show "mm_free s (W x) = snd (coalesce sR (W x))"
    using cs e1 by (simp add: mm_free_def Let_def PUTs_def PACK_tag sR_def)
  let ?R = "{x - 4..<x + total [(sz, True)] - 4}"
  have fr: "same_out ?R (mem s) ?m2"
  proof -
    have "same_out ?R (mem s) ?m1" using b x by (intro PUT_region_step) auto
    then show ?thesis using b x by (intro PUT_region_step) auto
  qed
  have ts: "tseg ?m2 x [(sz, False)]"
    using b x by (simp add: GET_PUT_W_if)
  have sub: "set fl \<subseteq> set (addrs a0 pre) \<union> set (addrs (x + total [(sz, True)]) post)"
    using sf free_addrs_subset [of a0 pre] free_addrs_subset [of "x + sz" post] x
    by (auto simp: free_addrs_mid)
  have t1: "tags_ok s a0 (pre @ [(sz, True)] @ post)" using t by simp
  note rt = retag_step [OF t1 fl x sub fr _ ts]
  show "coal_pre sR a0 pre sz post fl"
    using rt b sf na by (auto simp: coal_pre_def sR_def)
  show "frame {x - 4..<x + sz - 4} s sR" using fr by (simp add: frame_def sR_def)
qed

lemma st_list_size: "GET_SIZE (mem st_list) (HDRP 0x1010) = 16"
  "GET_SIZE (mem st_list) (HDRP 0x1030) = 32"
  "GET_ALLOC (mem st_list) (HDRP 0x1010) = 0" "GET_ALLOC (mem st_list) (HDRP 0x1030) = 0"
  by (simp_all add: GET_SIZE_def GET_ALLOC_def st_list_hdr)

text \<open>
  Claim C2.  \<^verbatim>\<open>find_fit\<close> walks the free list from \<^verbatim>\<open>mp_firstfreeblock\<close> along the successor
  links and returns the first block whose stored size is at least the requested size, and
  \<^verbatim>\<open>NULL\<close> when no block of the list is large enough.  The free list is the list \<open>bs\<close> of the
  blocks met on the way to the terminating \<^verbatim>\<open>NULL\<close>; its blocks carry the allocated flag 0 and
  the counter of free blocks is not negative, as in every state the allocator builds.
\<close>

theorem find_fit_first_fit:
  assumes "chain (mem s) (mp_firstfreeblock s) bs" and "0 \<le> m_freecount s"
    and "\<forall>b\<in>set bs. GET_ALLOC (mem s) (HDRP b) = 0"
  shows "find_fit s asize
    = Some (case find (\<lambda>b. asize \<le> GET_SIZE (mem s) (HDRP b)) bs of None \<Rightarrow> NULL | Some b \<Rightarrow> b)"
proof -
  have "find_fit s asize = Some (first_fit (mem s) asize bs)"
    unfolding find_fit_def using assms(1,2) by (rule find_fit_loop_chain)
  moreover have "find (\<lambda>b. GET_ALLOC (mem s) (HDRP b) = 0 \<and> asize \<le> GET_SIZE (mem s) (HDRP b)) bs
      = find (\<lambda>b. asize \<le> GET_SIZE (mem s) (HDRP b)) bs"
    using assms(3) by (rule find_all_true)
  ultimately show ?thesis by (simp add: first_fit_def)
qed

theorem find_fit_first_fit_witness:
  "find_fit st_list 16 = Some 0x1010 \<and> find_fit st_list 24 = Some 0x1030
     \<and> find_fit st_list 40 = Some NULL"
  using find_fit_first_fit [of st_list "[0x1010, 0x1030]" 16]
    find_fit_first_fit [of st_list "[0x1010, 0x1030]" 24]
    find_fit_first_fit [of st_list "[0x1010, 0x1030]" 40]
    st_list_chain
  by (simp add: st_list_size) (simp add: st_list_def)

text \<open>
  Claim C3.  \<^verbatim>\<open>place\<close> on a free block \<open>x\<close> of \<open>csz\<close> bytes and an adjusted size \<open>asz\<close> (at
  least the minimum block size of 16, a multiple of 8, at most \<open>csz\<close>) takes \<open>x\<close> off the free
  list.  If the leftover \<open>csz - asz\<close> is at least 16, the block is split: the first \<open>asz\<close>
  bytes become an allocated block, the leftover becomes a free block with the leftover size in
  header and footer, and the leftover block is put at the head of the free list.  Otherwise
  the whole block of \<open>csz\<close> bytes is marked allocated.  In \<open>heap_inv\<close> the block list gives the
  header and the footer of every block, and the last argument is the free list in link order.
\<close>

theorem place_splits_or_keeps:
  assumes "heap_inv s a0 (pre @ (csz, False) # post) fl" and "x = a0 + total pre"
    and "16 \<le> asz" and "8 dvd asz" and "asz \<le> csz"
  shows "if 16 \<le> csz - asz
         then heap_inv (place s (W x) (W asz)) a0
                (pre @ (asz, True) # (csz - asz, False) # post) ((x + asz) # remove1 x fl)
         else heap_inv (place s (W x) (W asz)) a0 (pre @ (csz, True) # post) (remove1 x fl)"
proof (cases "16 \<le> csz - asz")
  case True
  then show ?thesis using place_split(1) [OF assms(1-4)] by simp
next
  case False
  then have "csz - asz < 16" by simp
  then show ?thesis using place_whole(1) [OF assms] False by simp
qed

theorem place_splits_or_keeps_witness:
  "heap_inv (place st1 4112 16) 4112 [(16, True), (4080, False)] [4128]
   \<and> heap_inv (place st1 4112 4088) 4112 [(4096, True)] []"
  using place_splits_or_keeps [of st1 4112 "[]" 4096 "[]" "[4112]" 4112 16]
    place_splits_or_keeps [of st1 4112 "[]" 4096 "[]" "[4112]" 4112 4088] st1_inv
  by (simp add: total_def)

lemma st_freed_pre: "coal_pre st_freed 4112 [] 16 [(4080, False)] [4128]"
proof -
  have p: "heap_inv (place st1 (W 4112) (W 16)) 4112 ([] @ (16, True) # [(4080, False)]) [4128]"
    using place_split(1) [of st1 4112 "[]" 4096 "[]" "[4112]" 4112 16] st1_inv
    by (simp add: total_def)
  have "coal_pre ((place st1 (W 4112) (W 16))\<lparr>mem := PUT (PUT (mem (place st1 (W 4112) (W 16)))
      (W (4112 - 4)) (tagw 16 False)) (W (4112 + 16 - 8)) (tagw 16 False)\<rparr>) 4112 [] 16 [(4080, False)] [4128]"
    by (rule free_retag(2) [OF p]) (simp add: total_def)
  then show ?thesis by (simp add: st_freed_def tagw_def PACK_def)
qed

lemma st_both_pre: "coal_pre st_both 4112 [(16, False)] 16 [(4064, False)] [4112, 4144]"
proof -
  let ?sA = "place st1 (W 4112) (W 16)"
  let ?sB = "place ?sA (W 4128) (W 16)"
  let ?sC = "mm_free ?sB (W 4112)"
  have a: "heap_inv ?sA 4112 ([] @ (16, True) # [(4080, False)]) [4128]"
    using place_split(1) [of st1 4112 "[]" 4096 "[]" "[4112]" 4112 16] st1_inv by simp
  then have a': "heap_inv ?sA 4112 ([(16, True)] @ (4080, False) # []) [4128]" by simp
  have b: "heap_inv ?sB 4112 ([] @ (16, True) # [(16, True), (4064, False)]) [4144]"
    using place_split(1) [OF a', of 4128 16] by simp
  note r = free_retag [OF b, of 4112, simplified]
  have pa: "snd (prev_blk [])" by (simp add: prev_blk_def)
  have na: "snd (next_blk [(16, True), (4064, False)])" by (simp add: next_blk_def)
  note k = coalesce_case1(1,2) [OF r(2) _ pa na, of 4112, simplified]
  have "heap_inv ?sC 4112 ([(16, False)] @ (16, True) # [(4064, False)]) [4112, 4144]"
    using r(1) k by (simp add: coalesce_def)
  from free_retag(2) [OF this, of 4128] show ?thesis
    by (simp add: st_both_def tagw_def PACK_def)
qed

text \<open>
  Claim C6.  \<^verbatim>\<open>coalesce\<close> is run on a block \<open>x\<close> of \<open>sz\<close> bytes that is marked free and not
  yet on the free list (\<open>coal_pre\<close>); \<open>prev_blk pre\<close> and \<open>next_blk post\<close> are its physical
  neighbours (the prologue and the epilogue at the ends of the heap), \<open>pa\<close> and \<open>na\<close> their
  allocated flags, \<open>p\<close> and \<open>n\<close> their block pointers.  The state that \<^verbatim>\<open>coalesce\<close> returns is
  built in this order: the free neighbours are taken off the free list by \<^verbatim>\<open>allocate_block\<close>,
  in the state \<open>s\<close> as it was given (\<open>s1\<close>, \<open>s2\<close>); only then are the header \<open>w1\<close> and the
  footer \<open>w2\<close> of the merged block written, with the sum \<open>msz\<close> of the sizes (\<open>s3\<close>); and
  last the merged block \<open>r\<close> is put onto the free list by the one call of \<^verbatim>\<open>free_block\<close>.
  The trace of \<open>coalesce_tr\<close> lists these calls in the same order.  The merged block, which
  is also the result, is the previous block whenever that one was free.  The heap that results
  is well formed: the neighbours that were free are gone from the block list and from the free
  list, and the merged block stands in their place, at the head of the free list.
\<close>

theorem coalesce_removes_before_writes:
  assumes "coal_pre s a0 pre sz post fl" and "x = a0 + total pre"
  defines "pa \<equiv> snd (prev_blk pre)" and "na \<equiv> snd (next_blk post)"
  defines "p \<equiv> x - fst (prev_blk pre)" and "n \<equiv> x + sz"
  defines "r \<equiv> (if pa then x else p)"
  defines "msz \<equiv> (if pa then 0 else fst (prev_blk pre)) + sz + (if na then 0 else fst (next_blk post))"
  defines "w1 \<equiv> (if pa then W (x - 4) else if na then W (x + sz - 8) else W (p - 4))"
  defines "w2 \<equiv> (if pa then W (r + msz - 8) else if na then W (p - 4) else W (r + msz - 8))"
  defines "s1 \<equiv> (if na then s else allocate_block s (W n))"
  defines "s2 \<equiv> (if pa then s1 else allocate_block s1 (W p))"
  defines "s3 \<equiv> (if pa \<and> na then s2
                  else s2\<lparr>mem := PUT (PUT (mem s2) w1 (tagw msz False)) w2 (tagw msz False)\<rparr>)"
  shows "coalesce_tr s (W x)
      = (map Removed ((if na then [] else [W n]) @ (if pa then [] else [W p]))
           @ map Wrote (if pa \<and> na then [] else [w1, w2]) @ [Inserted (W r)],
         W r, free_block s3 (W r))
    \<and> heap_inv (free_block s3 (W r)) a0
         ((if pa then pre else butlast pre) @ (msz, False) # (if na then post else tl post))
         (r # (if pa then id else remove1 p) ((if na then id else remove1 n) fl))"
proof -
  note c = assms(1) and x = assms(2)
  consider (c1) "snd (prev_blk pre)" "snd (next_blk post)"
    | (c2) nsz post' where "snd (prev_blk pre)" "post = (nsz, False) # post'"
    | (c3) psz pre' where "pre = pre' @ [(psz, False)]" "snd (next_blk post)"
    | (c4) psz pre' nsz post' where "pre = pre' @ [(psz, False)]" "post = (nsz, False) # post'"
  proof -
    have p: "snd (prev_blk pre) \<or> (\<exists>psz pre'. pre = pre' @ [(psz, False)])"
      by (cases pre rule: rev_cases) (auto simp: prev_blk_def)
    have n: "snd (next_blk post) \<or> (\<exists>nsz post'. post = (nsz, False) # post')"
      by (cases post) (auto simp: next_blk_def)
    from p n show ?thesis using that by blast
  qed
  then show ?thesis
  proof cases
    case c1
    show ?thesis
      using coalesce_case1(1,2) [OF c x c1] c1
      by (simp add: pa_def na_def r_def msz_def s1_def s2_def s3_def)
  next
    case c2
    have d: "pa" "\<not> na" "fst (next_blk post) = nsz" "r = x" "msz = sz + nsz"
      using c2 by (simp_all add: pa_def na_def r_def msz_def next_blk_def)
    show ?thesis
      using coalesce_case2(1,2) [OF c [unfolded c2(2)] x c2(1)] c2(2)
      unfolding d s1_def s2_def s3_def w1_def w2_def n_def
      by (simp add: d add.assoc)
  next
    case c3
    have x3: "x = a0 + total pre' + psz" using x c3(1) by simp
    have d: "\<not> pa" "na" "fst (prev_blk pre) = psz" "r = x - psz" "msz = psz + sz" "p = x - psz"
      using c3 by (simp_all add: pa_def na_def r_def msz_def prev_blk_def p_def)
    show ?thesis
      using coalesce_case3(1,2) [OF c [unfolded c3(1)] x3 c3(2)] c3(1)
      unfolding d s1_def s2_def s3_def w1_def w2_def n_def
      by (simp add: d add.commute)
  next
    case c4
    have x4: "x = a0 + total pre' + psz" using x c4(1) by simp
    have d: "\<not> pa" "\<not> na" "fst (prev_blk pre) = psz" "fst (next_blk post) = nsz" "r = x - psz"
      "msz = psz + sz + nsz" "p = x - psz"
      using c4 by (simp_all add: pa_def na_def r_def msz_def prev_blk_def next_blk_def p_def)
    show ?thesis
      using coalesce_case4(1,2) [OF c [unfolded c4(1) c4(2)] x4] c4(1,2)
      unfolding d s1_def s2_def s3_def w1_def w2_def n_def
      by (simp add: d add.commute add.left_commute add.assoc)
  qed
qed

theorem coalesce_removes_before_writes_witness:
  "fst (coalesce_tr st_freed 4112) = [Removed 4128, Wrote 4108, Wrote 8200, Inserted 4112]
   \<and> fst (snd (coalesce_tr st_freed 4112)) = 4112
   \<and> heap_inv (snd (snd (coalesce_tr st_freed 4112))) 4112 [(4096, False)] [4112]
   \<and> fst (coalesce_tr st_both 4128)
       = [Removed 4144, Removed 4112, Wrote 4108, Wrote 8200, Inserted 4112]
   \<and> fst (snd (coalesce_tr st_both 4128)) = 4112
   \<and> heap_inv (snd (snd (coalesce_tr st_both 4128))) 4112 [(4096, False)] [4112]"
  using coalesce_removes_before_writes [of st_freed 4112 "[]" 16 "[(4080, False)]" "[4128]" 4112]
    coalesce_removes_before_writes [of st_both 4112 "[(16, False)]" 16 "[(4064, False)]" "[4112, 4144]" 4128]
    st_freed_pre st_both_pre
  by (simp add: prev_blk_def next_blk_def)

lemma distinct_singleton: "set xs = {a} \<Longrightarrow> distinct xs \<Longrightarrow> xs = [a]"
  by (cases xs; cases "tl xs") auto

lemma st1_reads: "GET_SIZE (mem st1) (HDRP 4112) = 4096" "GET_ALLOC (mem st1) (HDRP 4112) = 0"
  "GET_SIZE (mem st1) 4108 = 4096" "GET_ALLOC (mem st1) 4108 = 0"
  using free_block_reads(1,2) [of st1 4112 "[]" 4096 "[]" "[4112]" 4112] st1_inv
  by (simp_all add: total_def HDRP_def WSIZE_def)

lemma st1_find_fit: "asize \<le> 4096 \<Longrightarrow> find_fit st1 asize = Some 4112"
  using find_fit_inv [OF st1_inv, of asize] by (simp add: st1_reads)

lemma place_zero:
  assumes inv: "heap_inv s a0 (pre @ (csz, False) # post) [x]" and x: "x = a0 + total pre"
  shows "GET (mem (place s (W x) 0)) (W (x - 8)) = 1"
proof -
  let ?bs = "pre @ (csz, False) # post"
  from inv have tm: "tagsm (mem s) a0 ?bs" and cnt: "m_freecount s = 1"
    by (auto simp: heap_inv_def tags_ok_def flist_ok_def)
  note b = tagsm_bounds [OF tm, simplified]
  note fb = free_block_reads [OF inv x]
  have xb: "16 \<le> x" "x + csz < 4294967296" "16 \<le> csz" "8 dvd csz" using b x by auto
  have ge: "DSIZE + OVERHEAD \<le> W csz" using xb by (subst W_ge16) auto
  have p01: "PACK 0 1 = 1" by (simp add: PACK_def)
  have sz1: "GET_SIZE m p = 0" if "GET m p = 1" for m p
    using that by (simp add: GET_SIZE_def)
  let ?m1 = "PUT (PUT (mem s) (W x) 0) (W (x + 4)) 0"
  let ?m2 = "PUT ?m1 (W (x - 4)) 1"
  let ?m3 = "PUT ?m2 (W (x - 8)) 1"
  let ?m4 = "PUT ?m3 (W (x - 4)) (tagw csz False)"
  let ?m5 = "PUT ?m4 (W (x + csz - 8)) (tagw csz False)"
  let ?m7 = "PUT (PUT ?m5 (W (x + 4)) 0) (W x) 0"
  have f2: "FTRP ?m2 (W x) = W (x - 8)"
    by (simp add: FTRP_def DSIZE_def sz1 GET_PUT_same)
  have g3: "GET ?m3 (W (x - 4)) = 1" using xb by (simp add: GET_PUT_W_if)
  have n3: "NEXT_BLKP ?m3 (W x) = W x"
    using g3 by (simp add: NEXT_BLKP_def WSIZE_def sz1)
  have f4: "FTRP ?m4 (W x) = W (x + csz - 8)"
    using xb by (intro FTRP_W [where al = False]) (auto simp: GET_PUT_same)
  have "mem (place s (W x) 0) = ?m7"
    using fb(2) cnt ge f2 n3 f4
    by (simp add: place_def allocate_block_def free_block_def Let_def PUTs_def set_PREV_def
        set_SUCC_def SUC_PTR_def WSIZE_def NULL_def p01 PACK_tag)
  then show ?thesis using xb by (simp add: GET_PUT_W_if)
qed

lemma st1_prologue: "GET (mem st1) 0x1008 = 9"
proof -
  from st1_inv have "GET (mem st1) (W (4112 - 8)) = tagw 8 True"
    by (simp add: heap_inv_def tags_ok_def tagsm_def)
  then show ?thesis by (simp add: tagw_def PACK_def)
qed



lemma no_adj_prev: "no_adj (pre @ (c, False) # post) \<Longrightarrow> snd (prev_blk pre)"
  by (cases pre rule: rev_cases) (auto simp: no_adj_append prev_blk_def)

lemma no_adj_next: "no_adj (pre @ (c, False) # post) \<Longrightarrow> snd (next_blk post)"
  by (cases post) (auto simp: no_adj_append no_adj_Cons next_blk_def)

lemma extend_heap_pre:
  assumes inv: "heap_inv s a0 bs fl"
    and n: "16 \<le> n" "8 dvd n"
    and w: "(if w mod 2 \<noteq> 0 then (w + 1) * WSIZE else w * WSIZE) = W n"
    and room: "a0 + total bs + n \<le> uint (mem_max_addr s)"
  defines "e \<equiv> a0 + total bs"
  defines "sE \<equiv> s\<lparr>mem_brk := W (e + n),
      mem := PUT (PUT (PUT (mem s) (W (e - 4)) (tagw n False)) (W (e + n - 8)) (tagw n False))
               (W (e + n - 4)) (tagw 0 True)\<rparr>"
  shows "extend_heap s w = coalesce sE (W e)" and "coal_pre sE a0 bs n [] fl"
    and "same_out {e - 4..<e + n} (mem s) (mem sE)"
proof -
  from inv have t: "tags_ok s a0 bs" and fl: "flist_ok s fl"
    and sf: "set fl = set (free_addrs a0 bs)" and na: "no_adj bs"
    by (auto simp: heap_inv_def)
  from t have tm: "tagsm (mem s) a0 bs" by (simp add: tags_ok_def)
  from t have b: "16 \<le> a0" "8 dvd a0" "a0 + total bs < 4294967296" "sizes_ok bs"
    "mem_brk s = W (a0 + total bs)" "p_heap_list s = W (a0 - 8)"
    and pro: "GET (mem s) (W (a0 - 12)) = tagw 8 True" "GET (mem s) (W (a0 - 8)) = tagw 8 True"
    and tsb: "tseg (mem s) a0 bs"
    by (auto simp: tags_ok_def tagsm_def)
  note tn = total_nonneg [OF b(4)]
  note td = total_dvd [OF b(4)]
  have eb: "16 \<le> e" "8 dvd e" "e + n < 4294967296" "e < 4294967296"
    using b tn td n room uint_lt2p [of "mem_max_addr s"] by (auto simp: e_def)
  have ok: "\<not> unat (mem_max_addr s) < unat (W e) + unat (W n)"
    using eb n room by (subst sbrk_cond) (auto simp: e_def)
  have ne: "W e \<noteq> - 1" using eb by (intro W_not_m1) auto
  let ?m1 = "PUT (mem s) (W (e - 4)) (tagw n False)"
  let ?m2 = "PUT ?m1 (W (e + n - 8)) (tagw n False)"
  let ?m3 = "PUT ?m2 (W (e + n - 4)) (tagw 0 True)"
  have e1: "FTRP ?m1 (W e) = W (e + n - 8)"
    using n by (intro FTRP_W [where al = False]) (auto simp: GET_PUT_same)
  have e2: "NEXT_BLKP ?m2 (W e) = W (e + n)"
    using n eb by (intro NEXT_BLKP_W [where al = False]) (auto simp: GET_PUT_W_if)
  have p01: "PACK 0 1 = tagw 0 True" by (simp add: tagw_def)
  show "extend_heap s w = coalesce sE (W e)"
    using w ok ne e1 e2 b(5)
    by (simp add: extend_heap_def mem_sbrk_def Let_def PUTs_def PACK_tag p01 e_def [symmetric]
        sE_def)
  let ?R = "{e - 4..<e + n}"
  have fr: "same_out ?R (mem s) ?m3"
  proof -
    have "same_out ?R (mem s) ?m1" using eb n by (intro PUT_region_step) auto
    then have "same_out ?R (mem s) ?m2" using eb n by (intro PUT_region_step) auto
    then show ?thesis using eb n by (intro PUT_region_step) auto
  qed
  then show "same_out {e - 4..<e + n} (mem s) (mem sE)" by (simp add: sE_def)
  have g1: "GET ?m3 (W (a0 - 12)) = GET (mem s) (W (a0 - 12))"
    using b tn by (intro GET_same_out [OF fr]) (auto simp: e_def)
  have g2: "GET ?m3 (W (a0 - 8)) = GET (mem s) (W (a0 - 8))"
    using b tn by (intro GET_same_out [OF fr]) (auto simp: e_def)
  have g3: "tseg ?m3 a0 bs = tseg (mem s) a0 bs"
    using b tn by (intro tseg_frame_coarse [OF fr]) (auto simp: e_def)
  have g4: "tseg ?m3 e [(n, False)]"
    using eb n by (simp add: GET_PUT_W_if)
  have g5: "GET ?m3 (W (e + n - 4)) = tagw 0 True" by (simp add: GET_PUT_same)
  have tm3: "tagsm ?m3 a0 (bs @ [(n, False)])"
    using b eb n pro tsb g1 g2 g3 g4 g5
    by (simp add: tagsm_def tseg_append e_def add.assoc)
  have t3: "tags_ok sE a0 (bs @ (n, False) # [])"
    using tm3 b room by (simp add: tags_ok_def e_def add.assoc sE_def)
  have sub: "set fl \<subseteq> set (addrs a0 bs)" using sf free_addrs_subset by blast
  have "dseg ?m3 0 (mp_firstfreeblock s) fl 0 = dseg (mem s) 0 (mp_firstfreeblock s) fl 0"
  proof (rule dseg_frame [OF fr], intro ballI)
    fix y assume "y \<in> set fl"
    then have "a0 \<le> y \<and> y + 16 \<le> e"
      using sub addrs_bounds [OF b(4), of y a0] by (auto simp: e_def)
    then show "0 \<le> y \<and> y + 8 \<le> 4294967296 \<and> (\<forall>n. y \<le> n \<and> n < y + 8 \<longrightarrow> n \<notin> ?R)"
      using b eb by auto
  qed
  then have f3: "flist_ok sE fl" using fl by (simp add: flist_ok_def sE_def)
  have na3: "no_adj (bs @ (n, True) # [])" using na by (simp add: no_adj_append)
  have sf3: "set fl = set (free_addrs a0 (bs @ (n, True) # []))"
    using sf by (simp add: free_addrs_append)
  show "coal_pre sE a0 bs n [] fl"
    using t3 f3 na3 sf3 by (simp add: coal_pre_def)
qed

lemma extend_heap_exact:
  assumes inv: "heap_inv s a0 bs fl"
    and n: "16 \<le> n" "8 dvd n"
    and w: "(if w mod 2 \<noteq> 0 then (w + 1) * WSIZE else w * WSIZE) = W n"
    and room: "a0 + total bs + n \<le> uint (mem_max_addr s)"
    and pa: "snd (prev_blk bs)"
  shows "fst (extend_heap s w) = W (a0 + total bs)"
    and "heap_inv (snd (extend_heap s w)) a0 (bs @ [(n, False)]) ((a0 + total bs) # fl)"
proof -
  note p = extend_heap_pre [OF inv n w room]
  have na: "snd (next_blk [])" by (simp add: next_blk_def)
  note k = coalesce_case1 [OF p(2) refl pa na]
  show "fst (extend_heap s w) = W (a0 + total bs)"
    using p(1) k(1) by (simp add: coalesce_def)
  show "heap_inv (snd (extend_heap s w)) a0 (bs @ [(n, False)]) ((a0 + total bs) # fl)"
    using p(1) k(1,2) by (simp add: coalesce_def)
qed

lemma mm_free_head:
  assumes inv: "heap_inv s a0 (pre @ (sz, True) # post) fl" and x: "x = a0 + total pre"
    and pa: "snd (prev_blk pre)"
  shows "\<exists>rsz post' fl'. heap_inv (mm_free s (W x)) a0 (pre @ (rsz, False) # post') (x # fl')
      \<and> sz \<le> rsz \<and> mem_brk (mm_free s (W x)) = mem_brk s"
proof -
  note r = free_retag [OF inv x]
  let ?sR = "s\<lparr>mem := PUT (PUT (mem s) (W (x - 4)) (tagw sz False)) (W (x + sz - 8)) (tagw sz False)\<rparr>"
  have br: "mem_brk ?sR = mem_brk s" by simp
  show ?thesis
  proof (cases "snd (next_blk post)")
    case True
    note k = coalesce_case1 [OF r(2) x pa True]
    have "mm_free s (W x) = free_block ?sR (W x)" using r(1) k(1) by (simp add: coalesce_def)
    moreover have "mem_brk (free_block ?sR (W x)) = mem_brk s" using k(3) by (simp add: frame_def)
    ultimately show ?thesis
      using k(2) by (intro exI [of _ sz] exI [of _ post] exI [of _ fl]) simp
  next
    case False
    then obtain nsz post' where po: "post = (nsz, False) # post'"
      by (cases post) (auto simp: next_blk_def)
    note k = coalesce_case2 [OF r(2) [unfolded po] x pa]
    from inv have "0 \<le> nsz" by (auto simp: heap_inv_def tags_ok_def tagsm_def sizes_ok_def po)
    moreover have "mm_free s (W x) = snd (snd (coalesce_tr ?sR (W x)))"
      using r(1) by (simp add: coalesce_def)
    moreover have "mem_brk (snd (snd (coalesce_tr ?sR (W x)))) = mem_brk s"
      using k(1,3) by (simp add: frame_def)
    ultimately show ?thesis
      using k(1,2)
      by (intro exI [of _ "sz + nsz"] exI [of _ post'] exI [of _ "remove1 (x + sz) fl"]) simp
  qed
qed

lemma malloc_again:
  assumes inv: "heap_inv s a0 (pre @ (rsz, False) # post) (x # fl)" and x: "x = a0 + total pre"
    and rng: "uint sz \<le> 4294967280" and nz: "sz \<noteq> 0" and le: "adj (uint sz) \<le> rsz"
  shows "\<exists>s'. mm_malloc s sz = Some (W x, s') \<and> mem_brk s' = mem_brk s"
proof -
  let ?asz = "adj (uint sz)"
  note ap = adj_props [OF _ rng, simplified]
  note fb = free_block_reads [OF inv x]
  have "W ?asz \<le> W rsz" using ap fb le by (subst W_le) auto
  then have f: "find (\<lambda>y. W ?asz \<le> GET_SIZE (mem s) (HDRP (W y))) (x # fl) = Some x"
    using fb(2) by simp
  note k = mm_malloc_fit(1) [OF inv rng nz f]
  from place_ok [OF inv x ap(1,2) le]
  have "mem_brk (place s (W x) (W ?asz)) = mem_brk s" by (auto simp: frame_def)
  then show ?thesis using k by simp
qed

lemma mm_malloc_res:
  assumes inv: "heap_inv s a0 bs fl" and rng: "uint sz \<le> 4294967280"
  shows "mm_malloc s sz = Some (NULL, s)
    \<or> (\<exists>y pre bsz post fl' s'. mm_malloc s sz = Some (W y, s') \<and> W y \<noteq> NULL
          \<and> y = a0 + total pre \<and> 8 dvd y \<and> heap_inv s' a0 (pre @ (bsz, True) # post) fl'
          \<and> adj (uint sz) \<le> bsz \<and> snd (prev_blk pre)
          \<and> set (alloc_list a0 (pre @ (bsz, True) # post)) = insert (y, bsz) (set (alloc_list a0 bs))
          \<and> y \<notin> fst ` set (alloc_list a0 bs)
          \<and> (find_fit s (adjust_size sz) \<noteq> Some NULL \<longrightarrow> mem_brk s' = mem_brk s))"
proof (cases "sz = 0")
  case True
  then show ?thesis by (simp add: mm_malloc_zero)
next
  case nz: False
  let ?asz = "adj (uint sz)"
  note ap = adj_props [OF _ rng, simplified]
  from inv have nad: "no_adj bs" by (simp add: heap_inv_def)
  show ?thesis
  proof (cases "find (\<lambda>y. W ?asz \<le> GET_SIZE (mem s) (HDRP (W y))) fl")
    case (Some y)
    note k = mm_malloc_fit [OF inv rng nz Some]
    from k(2) obtain pre csz post where sp: "bs = pre @ (csz, False) # post" "y = a0 + total pre"
      "?asz \<le> csz" by blast
    note fb = free_block_reads [OF inv [unfolded sp(1)] sp(2)]
    from place_ok [OF inv [unfolded sp(1)] sp(2) ap(1,2) sp(3)]
    obtain bsz post' fl' where p:
      "heap_inv (place s (W y) (W ?asz)) a0 (pre @ (bsz, True) # post') fl'"
      "?asz \<le> bsz" "bsz \<le> csz" "bsz + total post' = csz + total post"
      "alloc_list (y + bsz) post' = alloc_list (y + csz) post"
      "frame (links (set fl) \<union> {y - 4..<y + csz - 4}) s (place s (W y) (W ?asz))" by blast
    from inv have so: "sizes_ok pre" "sizes_ok post"
      by (auto simp: heap_inv_def tags_ok_def tagsm_def sp(1))
    have al: "set (alloc_list a0 (pre @ (bsz, True) # post'))
        = insert (y, bsz) (set (alloc_list a0 bs))"
      using p(5) sp by (simp add: alloc_list_append)
    have ny: "y \<notin> fst ` set (alloc_list a0 bs)"
    proof
      assume "y \<in> fst ` set (alloc_list a0 bs)"
      then obtain zs where "(y, zs) \<in> set (alloc_list a0 bs)" by auto
      then have "(y, zs) \<in> set (alloc_list a0 pre) \<or> (y, zs) \<in> set (alloc_list (y + csz) post)"
        using sp by (simp add: alloc_list_append)
      then show False
        using alloc_list_bounds [OF so(1), of y zs a0] alloc_list_bounds [OF so(2), of y zs "y + csz"]
          sp ap by auto
    qed
    have pv: "snd (prev_blk pre)" using nad unfolding sp(1) by (rule no_adj_prev)
    have br: "mem_brk (place s (W y) (W ?asz)) = mem_brk s" using p(6) by (simp add: frame_def)
    show ?thesis
      using k(1,3) p(1,2) al ny sp(2) pv br fb(7)
      by (intro disjI2 exI [of _ y] exI [of _ pre] exI [of _ bsz] exI [of _ post'] exI [of _ fl']
            exI [of _ "place s (W y) (W ?asz)"]) (simp add: NULL_def)
  next
    case None
    note mm = mm_malloc_nofit [OF inv rng nz None]
    have ffn: "find_fit s (adjust_size sz) = Some NULL"
      using find_fit_inv [OF inv, of "W ?asz"] None by (simp add: adjust_size_W [OF rng] NULL_def)
    let ?n = "max ?asz 4096"
    let ?w = "W ?n div WSIZE"
    have nb: "16 \<le> ?n" "8 dvd ?n" "0 \<le> ?n" "?n < 4294967296" using ap by (auto simp: max_def)
    note w = words_of_size [OF nb(3,4,2)]
    from inv have t: "tags_ok s a0 bs" by (simp add: heap_inv_def)
    show ?thesis
    proof (cases "a0 + total bs + ?n \<le> uint (mem_max_addr s)")
      case False
      then have "extend_heap s ?w = (NULL, s)"
        using t nb w by (intro extend_heap_fail) auto
      then show ?thesis using mm by (simp add: Let_def)
    next
      case True
      from extend_heap_ok [OF inv nb(1,2) w True]
      obtain pre' rsz post' fl' where k:
        "extend_heap s ?w = (W (a0 + total pre'), snd (extend_heap s ?w))"
        "heap_inv (snd (extend_heap s ?w)) a0 (pre' @ (rsz, False) # post') fl'"
        "?n \<le> rsz"
        "alloc_list a0 (pre' @ (rsz, False) # post') = alloc_list a0 bs"
        by blast
      let ?s1 = "snd (extend_heap s ?w)"
      let ?y = "a0 + total pre'"
      note fb = free_block_reads [OF k(2) refl]
      have ny0: "W ?y \<noteq> 0" using fb by (simp add: W_eq_0)
      have le: "?asz \<le> rsz" using k(3) by simp
      from place_ok [OF k(2) refl ap(1,2) le]
      obtain bsz post'' fl'' where p:
        "heap_inv (place ?s1 (W ?y) (W ?asz)) a0 (pre' @ (bsz, True) # post'') fl''"
        "?asz \<le> bsz" "bsz \<le> rsz" "bsz + total post'' = rsz + total post'"
        "alloc_list (?y + bsz) post'' = alloc_list (?y + rsz) post'" by blast
      have me: "mm_malloc s sz = Some (W ?y, place ?s1 (W ?y) (W ?asz))"
        using mm k(1) ny0 by (simp add: Let_def NULL_def) (metis fst_conv)
      from k(2) have so: "sizes_ok pre'" "sizes_ok post'"
        by (auto simp: heap_inv_def tags_ok_def tagsm_def)
      have al0: "set (alloc_list a0 bs) = set (alloc_list a0 pre') \<union> set (alloc_list (?y + rsz) post')"
        using k(4) [symmetric] by (simp add: alloc_list_append)
      have al: "set (alloc_list a0 (pre' @ (bsz, True) # post''))
          = insert (?y, bsz) (set (alloc_list a0 bs))"
        using p(5) al0 by (simp add: alloc_list_append)
      have ny: "?y \<notin> fst ` set (alloc_list a0 bs)"
      proof
        assume "?y \<in> fst ` set (alloc_list a0 bs)"
        then obtain zs where "(?y, zs) \<in> set (alloc_list a0 bs)" by auto
        then have "(?y, zs) \<in> set (alloc_list a0 pre') \<or> (?y, zs) \<in> set (alloc_list (?y + rsz) post')"
          using al0 by simp
        then show False
          using alloc_list_bounds [OF so(1), of ?y zs a0]
            alloc_list_bounds [OF so(2), of ?y zs "?y + rsz"] fb by auto
      qed
      have pv: "snd (prev_blk pre')"
        using k(2) no_adj_prev [of pre' rsz post'] by (simp add: heap_inv_def)
      show ?thesis
        using me ny0 p(1,2) al ny pv ffn fb(7)
        by (intro disjI2 exI [of _ ?y] exI [of _ pre'] exI [of _ bsz] exI [of _ post'']
              exI [of _ fl''] exI [of _ "place ?s1 (W ?y) (W ?asz)"]) (simp add: NULL_def)
    qed
  qed
qed

lemma alloc_free_alloc_same:
  assumes inv: "heap_inv s a0 bs fl" and rng: "uint sz \<le> 4294967280"
  shows "mm_malloc s sz = Some (NULL, s)
    \<or> (\<exists>p s1 s3. mm_malloc s sz = Some (p, s1) \<and> alloc_free_alloc s sz = Some (p, p, s3)
          \<and> mem_brk s3 = mem_brk s1
          \<and> (find_fit s (adjust_size sz) \<noteq> Some NULL \<longrightarrow> mem_brk s3 = mem_brk s))"
proof -
  from mm_malloc_res [OF inv rng]
  consider "mm_malloc s sz = Some (NULL, s)"
    | y pre bsz post fl' s' where "mm_malloc s sz = Some (W y, s')" "W y \<noteq> NULL"
        "y = a0 + total pre" "heap_inv s' a0 (pre @ (bsz, True) # post) fl'"
        "adj (uint sz) \<le> bsz" "snd (prev_blk pre)"
        "find_fit s (adjust_size sz) \<noteq> Some NULL \<longrightarrow> mem_brk s' = mem_brk s"
    by blast
  then show ?thesis
  proof cases
    case 1
    then show ?thesis by simp
  next
    case 2
    have nz: "sz \<noteq> 0" using 2(1,2) by (auto simp: mm_malloc_zero)
    from mm_free_head [OF 2(4,3,6)] obtain rsz post' fl'' where f:
      "heap_inv (mm_free s' (W y)) a0 (pre @ (rsz, False) # post') (y # fl'')"
      "bsz \<le> rsz" "mem_brk (mm_free s' (W y)) = mem_brk s'" by blast
    have le: "adj (uint sz) \<le> rsz" using 2(5) f(2) by simp
    from malloc_again [OF f(1) 2(3) rng nz le] obtain s3 where
      m: "mm_malloc (mm_free s' (W y)) sz = Some (W y, s3)" "mem_brk s3 = mem_brk (mm_free s' (W y))"
      by blast
    have "alloc_free_alloc s sz = Some (W y, W y, s3)"
      using 2(1,2) m(1) by (simp add: alloc_free_alloc_def)
    then show ?thesis using 2(1,7) m(2) f(3) by auto
  qed
qed

lemma st_used_inv: "heap_inv st_used 4112 [(4096, True)] []"
  and st_used_brk: "mem_brk st_used = 0x2010"
  and st_used_max: "mem_max_addr st_used = 0x100000"
proof -
  note p = place_whole [of st1 4112 "[]" 4096 "[]" "[4112]" 4112 4096, simplified, OF st1_inv]
  have "total [] = 0" by (simp add: total_def)
  then have q: "heap_inv (place st1 (W 4112) (W 4096)) 4112 [(4096, True)] []"
    "frame (links {4112} \<union> {4108..<8204}) st1 (place st1 (W 4112) (W 4096))"
    using p by simp_all
  show "heap_inv st_used 4112 [(4096, True)] []" using q(1) by (simp add: st_used_def)
  then show "mem_brk st_used = 0x2010" by (simp add: heap_inv_def tags_ok_def total_def)
  show "mem_max_addr st_used = 0x100000" using q(2) st1_max by (simp add: frame_def st_used_def)
qed

lemma st1_malloc_4088: "mm_malloc st1 4088 = Some (0x1010, st_used)"
proof -
  have f: "find (\<lambda>y. W (adj (uint (4088 :: 32 word))) \<le> GET_SIZE (mem st1) (HDRP (W y))) [4112] = Some 4112"
    by (simp add: adj_def st1_reads)
  from mm_malloc_fit(1) [OF st1_inv _ _ f] show ?thesis
    by (simp add: adj_def st_used_def)
qed

lemma st_used_malloc_100:
  "\<exists>s1. mm_malloc st_used 100 = Some (0x2010, s1) \<and> mem_brk s1 = 0x3010"
proof -
  have f: "find (\<lambda>y. W (adj (uint (100 :: 32 word))) \<le> GET_SIZE (mem st_used) (HDRP (W y))) [] = None"
    by simp
  have w: "(if (W 4096 div WSIZE) mod 2 \<noteq> 0 then (W 4096 div WSIZE + 1) * WSIZE
            else (W 4096 div WSIZE) * WSIZE) = W 4096"
    by (rule words_of_size) simp_all
  have room: "4112 + total [(4096, True)] + 4096 \<le> uint (mem_max_addr st_used)"
    by (simp add: st_used_max total_def)
  have pa: "snd (prev_blk [(4096, True)])" by (simp add: prev_blk_def)
  note e = extend_heap_exact [OF st_used_inv _ _ w room pa, simplified]
  let ?sE = "snd (extend_heap st_used (W 4096 div WSIZE))"
  have t: "total [(4096, True)] = 4096" by (simp add: total_def)
  have hE: "heap_inv ?sE 4112 ([(4096, True)] @ (4096, False) # []) [8208]"
    using e(2) t by simp
  have fE: "fst (extend_heap st_used (W 4096 div WSIZE)) = 8208" using e(1) t by simp
  note p = place_split(1) [OF hE, of 8208 112, simplified]
  have hP: "heap_inv (place ?sE (W 8208) (W 112)) 4112 [(4096, True), (112, True), (3984, False)] [8320]"
    using p t by simp
  then have br: "mem_brk (place ?sE (W 8208) (W 112)) = 0x3010"
    by (simp add: heap_inv_def tags_ok_def total_def)
  from mm_malloc_nofit [OF st_used_inv _ _ f]
  have "mm_malloc st_used 100 = Some (8208, place ?sE (W 8208) (W 112))"
    using fE by (simp add: adj_def Let_def NULL_def)
  then show ?thesis using br by simp
qed

lemma st1_malloc_100: "\<exists>s1. mm_malloc st1 100 = Some (0x1010, s1)"
proof -
  have f: "find (\<lambda>y. W (adj (uint (100 :: 32 word))) \<le> GET_SIZE (mem st1) (HDRP (W y))) [4112] = Some 4112"
    by (simp add: adj_def st1_reads)
  from mm_malloc_fit(1) [OF st1_inv _ _ f] show ?thesis by simp
qed

text \<open>
  Claim C9, as amended.  From a well-formed heap, a request of 100 bytes that does not fail,
  the release of the returned address and a second request of 100 bytes give the same address
  again, and the second request does not grow the heap: \<^verbatim>\<open>mem_brk\<close> after the sequence is what
  it was after the first request.  It is what it was before the first request when that
  request found a fit in the free list; a first request that finds none grows the heap.
\<close>

theorem alloc_free_alloc_100:
  assumes "heap_inv s a0 bs fl"
  shows "mm_malloc s 100 = Some (NULL, s)
    \<or> (\<exists>p s1 s3. mm_malloc s 100 = Some (p, s1) \<and> alloc_free_alloc s 100 = Some (p, p, s3)
          \<and> mem_brk s3 = mem_brk s1
          \<and> (find_fit s (adjust_size 100) \<noteq> Some NULL \<longrightarrow> mem_brk s3 = mem_brk s))"
  using assms by (rule alloc_free_alloc_same) simp

theorem alloc_free_alloc_100_witness:
  "\<exists>s1 s3. mm_malloc st1 100 = Some (0x1010, s1) \<and> alloc_free_alloc st1 100 = Some (0x1010, 0x1010, s3)
     \<and> mem_brk s3 = mem_brk st1"
proof -
  have a: "adjust_size 100 = 112" by (simp add: adjust_size_def DSIZE_def OVERHEAD_def)
  have f: "find_fit st1 (adjust_size 100) = Some 4112" unfolding a by (rule st1_find_fit) simp
  from st1_malloc_100 obtain s1 where m: "mm_malloc st1 100 = Some (0x1010, s1)" by blast
  from alloc_free_alloc_100 [OF st1_inv] m f show ?thesis by (auto simp: NULL_def)
qed

text \<open>
  The claim as stated fails on \<open>st_used\<close>, the heap after \<^verbatim>\<open>mm_init\<close> and a request of 4088
  bytes: the first request of 100 bytes finds no free block and grows the heap from \<open>0x2010\<close>
  to \<open>0x3010\<close>.
\<close>

theorem alloc_free_alloc_grows:
  "mm_init st0 = (0, st1) \<and> mm_malloc st1 4088 = Some (0x1010, st_used)
   \<and> mem_brk st_used = 0x2010
   \<and> map_option (\<lambda>(p, q, s3). (p, q, mem_brk s3)) (alloc_free_alloc st_used 100)
       = Some (0x2010, 0x2010, 0x3010)"
proof -
  from st_used_malloc_100 obtain s1 where
    m: "mm_malloc st_used 100 = Some (0x2010, s1)" "mem_brk s1 = 0x3010" by blast
  from alloc_free_alloc_same [OF st_used_inv, of 100] m
  have "\<exists>s3. alloc_free_alloc st_used 100 = Some (0x2010, 0x2010, s3) \<and> mem_brk s3 = 0x3010"
    by (auto simp: NULL_def)
  then show ?thesis using st1_init st1_malloc_4088 st_used_brk by auto
qed

lemma length_total: "sizes_ok bs \<Longrightarrow> 16 * int (length bs) \<le> total bs"
  by (induction bs) auto

lemma heap_walk_tseg:
  assumes "tseg m a bs" "sizes_ok bs" "GET m (W (a + total bs - 4)) = tagw 0 True"
    "0 \<le> a" "a + total bs < 4294967296" "length bs < k"
  shows "heap_walk m k (W a) = map W (addrs a bs)"
  using assms
proof (induction bs arbitrary: a k)
  case Nil
  then obtain k' where k: "k = Suc k'" by (cases k) auto
  have "GET_SIZE m (W (a - 4)) = W 0" using Nil.prems(3) by (intro GET_SIZE_tag) auto
  then show ?case by (simp add: k)
next
  case (Cons b bs)
  then obtain k' where k: "k = Suc k'" by (cases k) auto
  have tn: "0 \<le> total bs" using Cons.prems by (intro total_nonneg) simp
  have h: "GET m (W (a - 4)) = tagw (fst b) (snd b)" using Cons.prems by simp
  have b: "16 \<le> fst b" "8 dvd fst b" "fst b < 4294967296" using Cons.prems tn by auto
  have sz: "GET_SIZE m (W (a - 4)) = W (fst b)" using h b by (intro GET_SIZE_tag) auto
  have nz: "W (fst b) \<noteq> 0" using b by (simp add: W_eq_0)
  have nx: "NEXT_BLKP m (W a) = W (a + fst b)" using h b(2) by (rule NEXT_BLKP_W)
  have "heap_walk m k' (W (a + fst b)) = map W (addrs (a + fst b) bs)"
    using Cons.prems k b by (intro Cons.IH) (auto simp: add.assoc)
  then show ?case using sz nz nx by (simp add: k)
qed

lemma heap_blocks_inv:
  assumes "heap_inv s a0 bs fl"
  shows "heap_blocks s = W (a0 - 8) # map W (addrs a0 bs)"
proof -
  from assms have t: "tagsm (mem s) a0 bs" and p: "p_heap_list s = W (a0 - 8)"
    by (auto simp: heap_inv_def tags_ok_def)
  then have b: "16 \<le> a0" "8 dvd a0" "a0 + total bs < 4294967296" "sizes_ok bs"
    "GET (mem s) (W (a0 - 12)) = tagw 8 True" "tseg (mem s) a0 bs"
    "GET (mem s) (W (a0 + total bs - 4)) = tagw 0 True"
    by (auto simp: tagsm_def)
  have "16 * int (length bs) < 4294967296" using length_total [OF b(4)] b by simp
  then have len: "length bs < 2 ^ 29 - 1" by simp
  have sz: "GET_SIZE (mem s) (W (a0 - 8 - 4)) = W 8" using b(5) by (intro GET_SIZE_tag) auto
  have nx: "NEXT_BLKP (mem s) (W (a0 - 8)) = W (a0 - 8 + 8)"
    using b(5) by (intro NEXT_BLKP_W [where al = True]) auto
  have w: "heap_walk (mem s) (2 ^ 29 - 1) (W a0) = map W (addrs a0 bs)"
    using b len by (intro heap_walk_tseg) auto
  have "(2 :: nat) ^ 29 = Suc (2 ^ 29 - 1)" by simp
  then have "heap_walk (mem s) (2 ^ 29) (W (a0 - 8))
      = (if GET_SIZE (mem s) (HDRP (W (a0 - 8))) = 0 then []
         else W (a0 - 8) # heap_walk (mem s) (2 ^ 29 - 1) (NEXT_BLKP (mem s) (W (a0 - 8))))"
    by (metis heap_walk.simps(2))
  then show ?thesis using sz nx w p by (simp add: heap_blocks_def)
qed

lemma flist_walk_chain: "chain m p bs \<Longrightarrow> length bs \<le> k \<Longrightarrow> flist_walk m k p = bs"
proof (induction bs arbitrary: p k)
  case Nil
  then show ?case by (cases k) auto
next
  case (Cons b bs)
  then obtain k' where k: "k = Suc k'" by (cases k) auto
  then show ?case using Cons by auto
qed

lemma free_list_inv:
  assumes inv: "heap_inv s a0 bs fl"
  shows "free_list s = map W fl"
proof -
  from inv have ds: "dseg (mem s) 0 (mp_firstfreeblock s) fl 0" and d: "distinct fl"
    and t: "tagsm (mem s) a0 bs"
    by (auto simp: heap_inv_def flist_ok_def tags_ok_def)
  then have b: "a0 + total bs < 4294967296" "sizes_ok bs" "16 \<le> a0" by (auto simp: tagsm_def)
  have ch: "chain (mem s) (mp_firstfreeblock s) (map W fl)"
    using ds heap_inv_sep(2) [OF inv] by (rule dseg_chain)
  have "length fl = card (set fl)" using d by (simp add: distinct_card)
  also have "\<dots> \<le> card (set (addrs a0 bs))"
    using heap_inv_sep(3) [OF inv] by (intro card_mono) auto
  also have "\<dots> \<le> length (addrs a0 bs)" by (rule card_length)
  also have "\<dots> = length bs" by (induction bs arbitrary: a0) auto
  finally have "16 * int (length fl) \<le> total bs" using length_total [OF b(2)] by simp
  then have "int (length fl) \<le> 536870912" using b by linarith
  then have "length (map W fl) \<le> 2 ^ 29" by simp
  then show ?thesis unfolding free_list_def using ch by (intro flist_walk_chain)
qed

lemma block_flag:
  assumes inv: "heap_inv s a0 bs fl" and x: "x \<in> set (addrs a0 bs)"
  shows "(GET_ALLOC (mem s) (HDRP (W x)) = 0) = (x \<in> set (free_addrs a0 bs))"
proof -
  from inv have t: "tagsm (mem s) a0 bs" by (simp add: heap_inv_def tags_ok_def)
  from addrs_split [OF x] obtain pre b post where sp: "bs = pre @ b # post" "x = a0 + total pre"
    by blast
  note bd = tagsm_bounds [OF t [unfolded sp(1)]]
  note h = tagsm_here [OF t [unfolded sp(1)] sp(2)]
  note g = geometry [OF bd(8,9) sp(2)]
  have a: "GET_ALLOC (mem s) (W (x - 4)) = (if snd b then 1 else 0)"
    using h(1) bd by (intro GET_ALLOC_tag) auto
  have "x \<notin> set (free_addrs a0 pre)" using g(3) [of x] by auto
  moreover have "x \<notin> set (free_addrs (x + fst b) post)" using g(4) [of x "fst b"] bd by auto
  ultimately have "(x \<in> set (free_addrs a0 bs)) = (\<not> snd b)"
    unfolding sp(1) by (simp add: free_addrs_mid sp(2) [symmetric])
  then show ?thesis using a by simp
qed

lemma W_inj_on_blocks:
  assumes "tagsm m a0 bs"
  shows "inj_on W (insert (a0 - 8) (set (addrs a0 bs)))"
proof (rule inj_onI)
  fix x y assume a: "x \<in> insert (a0 - 8) (set (addrs a0 bs))" "y \<in> insert (a0 - 8) (set (addrs a0 bs))" "W x = W y"
  from assms have b: "16 \<le> a0" "a0 + total bs < 4294967296" "sizes_ok bs" by (auto simp: tagsm_def)
  have r: "0 \<le> z \<and> z < 4294967296" if "z \<in> insert (a0 - 8) (set (addrs a0 bs))" for z
  proof (cases "z = a0 - 8")
    case True
    then show ?thesis using b total_nonneg [OF b(3)] by simp
  next
    case False
    then have "z \<in> set (addrs a0 bs)" using that by simp
    then show ?thesis using addrs_bounds [OF b(3), of z a0] b by simp
  qed
  show "x = y" using a r [of x] r [of y] W_eq [of x y] by blast
qed

lemma inv_no_adjacent_free:
  assumes inv: "heap_inv s a0 bs fl"
  shows "no_adjacent_free s"
  unfolding no_adjacent_free_def
proof (intro ballI impI)
  fix bp assume bp: "bp \<in> set (heap_blocks s)" and fr: "GET_ALLOC (mem s) (HDRP bp) = 0"
  from inv have t: "tagsm (mem s) a0 bs" and na: "no_adj bs" by (auto simp: heap_inv_def tags_ok_def)
  then have pro: "GET (mem s) (W (a0 - 12)) = tagw 8 True" by (simp add: tagsm_def)
  have "GET_ALLOC (mem s) (W (a0 - 8 - 4)) = (if True then 1 else 0)"
    using pro by (intro GET_ALLOC_tag) auto
  then have "bp \<noteq> W (a0 - 8)" using fr by auto
  then obtain x where x: "x \<in> set (addrs a0 bs)" "bp = W x"
    using bp heap_blocks_inv [OF inv] by auto
  from addrs_split [OF x(1)] obtain pre b post where sp: "bs = pre @ b # post" "x = a0 + total pre"
    by blast
  note bd = tagsm_bounds [OF t [unfolded sp(1)]]
  note h = tagsm_here [OF t [unfolded sp(1)] sp(2)]
  note pv = tagsm_prev [OF t [unfolded sp(1)] sp(2)]
  note nx = tagsm_next [OF t [unfolded sp(1)] sp(2)]
  have "GET_ALLOC (mem s) (W (x - 4)) = (if snd b then 1 else 0)"
    using h(1) bd by (intro GET_ALLOC_tag) auto
  then have fb: "\<not> snd b" using fr x(2) by (auto split: if_splits)
  then have b: "b = (fst b, False)" by (cases b) auto
  have nab: "no_adj (pre @ (fst b, False) # post)" using na sp(1) b by simp
  have pa: "snd (prev_blk pre)" using nab by (rule no_adj_prev)
  have nxa: "snd (next_blk post)" using nab by (rule no_adj_next)
  have n1: "NEXT_BLKP (mem s) (W x) = W (x + fst b)" using h(1) bd by (intro NEXT_BLKP_W) auto
  have n2: "GET_ALLOC (mem s) (W (x + fst b - 4)) = (if snd (next_blk post) then 1 else 0)"
    using nx(1,2) by (rule GET_ALLOC_tag)
  have p1: "PREV_BLKP (mem s) (W x) = W (x - fst (prev_blk pre))" using pv(1,3) by (rule PREV_BLKP_W)
  have p2: "GET_ALLOC (mem s) (W (x - fst (prev_blk pre) - 4)) = (if snd (prev_blk pre) then 1 else 0)"
    using pv(2,3) by (rule GET_ALLOC_tag)
  show "GET_ALLOC (mem s) (HDRP (NEXT_BLKP (mem s) bp)) = 1
        \<and> GET_ALLOC (mem s) (HDRP (PREV_BLKP (mem s) bp)) = 1"
    using n1 n2 p1 p2 pa nxa x(2) by simp
qed

lemma inv_free_list_agrees:
  assumes inv: "heap_inv s a0 bs fl"
  shows "set (free_list s) = {bp \<in> set (heap_blocks s). GET_ALLOC (mem s) (HDRP bp) = 0}"
    and "distinct (free_list s)"
    and "length (free_list s) = length (filter (\<lambda>bp. GET_ALLOC (mem s) (HDRP bp) = 0) (heap_blocks s))"
    and "int (length (free_list s)) = m_freecount s"
proof -
  from inv have t: "tagsm (mem s) a0 bs" and sf: "set fl = set (free_addrs a0 bs)"
    and d: "distinct fl" and c: "m_freecount s = int (length fl)"
    by (auto simp: heap_inv_def tags_ok_def flist_ok_def)
  then have pro: "GET (mem s) (W (a0 - 12)) = tagw 8 True" and so: "sizes_ok bs"
    by (auto simp: tagsm_def)
  have pa: "GET_ALLOC (mem s) (W (a0 - 8 - 4)) = (if True then 1 else 0)"
    using pro by (intro GET_ALLOC_tag) auto
  note fl = free_list_inv [OF inv]
  note hb = heap_blocks_inv [OF inv]
  note inj = W_inj_on_blocks [OF t]
  have filt: "filter (\<lambda>bp. GET_ALLOC (mem s) (HDRP bp) = 0) (heap_blocks s)
      = map W (filter (\<lambda>x. x \<in> set (free_addrs a0 bs)) (addrs a0 bs))"
    using pa block_flag [OF inv] unfolding hb
    by (simp add: filter_map comp_def cong: filter_cong)
  have s1: "set (filter (\<lambda>x. x \<in> set (free_addrs a0 bs)) (addrs a0 bs)) = set (free_addrs a0 bs)"
    using free_addrs_subset [of a0 bs] by auto
  have "{bp \<in> set (heap_blocks s). GET_ALLOC (mem s) (HDRP bp) = 0}
      = set (filter (\<lambda>bp. GET_ALLOC (mem s) (HDRP bp) = 0) (heap_blocks s))" by simp
  also have "\<dots> = W ` set (free_addrs a0 bs)" unfolding filt using s1 by simp
  finally show "set (free_list s) = {bp \<in> set (heap_blocks s). GET_ALLOC (mem s) (HDRP bp) = 0}"
    using fl sf by simp
  have sub: "set fl \<subseteq> insert (a0 - 8) (set (addrs a0 bs))"
    using sf free_addrs_subset [of a0 bs] by auto
  show "distinct (free_list s)"
    unfolding fl using d inj_on_subset [OF inj sub] by (simp add: distinct_map)
  have d2: "distinct (filter (\<lambda>x. x \<in> set (free_addrs a0 bs)) (addrs a0 bs))"
    using addrs_distinct [OF so] by simp
  have "length fl = card (set fl)" using d by (simp add: distinct_card)
  also have "\<dots> = card (set (filter (\<lambda>x. x \<in> set (free_addrs a0 bs)) (addrs a0 bs)))"
    using s1 sf by simp
  also have "\<dots> = length (filter (\<lambda>x. x \<in> set (free_addrs a0 bs)) (addrs a0 bs))"
    using d2 by (rule distinct_card)
  finally show "length (free_list s)
      = length (filter (\<lambda>bp. GET_ALLOC (mem s) (HDRP bp) = 0) (heap_blocks s))"
    unfolding fl filt by simp
  show "int (length (free_list s)) = m_freecount s" using c fl by simp
qed

lemma mm_init_0D:
  assumes "mm_init s0 = (0, s)"
  shows "mem_brk s0 \<noteq> 0" "unat (mem_brk s0) + 16 \<le> unat (mem_max_addr s0)"
    "unat (mem_brk s0 + 16) + 4096 \<le> unat (mem_max_addr s0)"
  using assms
  by (auto simp: mm_init_def mem_sbrk_def extend_heap_def Let_def PUTs_def WSIZE_def DSIZE_def
      CHUNKSIZE_def NULL_def split: if_splits prod.splits)

lemma mm_init_inv:
  assumes "mm_init s0 = (0, s)" and al: "8 dvd uint (mem_brk s0)"
  shows "heap_inv s (uint (mem_brk s0) + 16) [(4096, False)] [uint (mem_brk s0) + 16]"
proof -
  define b where "b = uint (mem_brk s0)"
  have bw: "mem_brk s0 = W b" by (simp add: b_def)
  have b0: "0 \<le> b" "b < 4294967296" using uint_lt2p [of "mem_brk s0"] by (simp_all add: b_def)
  have mx: "uint (mem_max_addr s0) < 4294967296" using uint_lt2p [of "mem_max_addr s0"] by simp
  note d = mm_init_0D [OF assms(1)]
  have "b \<noteq> 0"
  proof
    assume "b = 0"
    then have "mem_brk s0 = W 0" using bw by (simp only:)
    then show False using d(1) by simp
  qed
  then have b8: "8 \<le> b" using al b0 unfolding b_def [symmetric] by presburger
  have u1: "int (unat (mem_brk s0)) = b" by (simp add: b_def)
  have u2: "int (unat (mem_max_addr s0)) = uint (mem_max_addr s0)" by simp
  have r1: "b + 16 \<le> uint (mem_max_addr s0)" using d(2) u1 u2 by linarith
  have "unat (W (b + 16)) = nat (b + 16)" using b0 mx r1 by (intro unat_W) auto
  moreover have "mem_brk s0 + 16 = W (b + 16)" unfolding bw by (simp only: W_add_num)
  ultimately have u3: "int (unat (mem_brk s0 + 16)) = b + 16" using b0 by simp
  have r2: "b + 4112 \<le> uint (mem_max_addr s0)" using d(3) u3 u2 by linarith
  have "\<exists>s. mm_init s0 = (0, s) \<and> heap_inv s (b + 16) [(4096, False)] [b + 16]
            \<and> mem_max_addr s = mem_max_addr s0"
    using bw b8 _ r2 by (rule mm_init_ok) (use al in \<open>simp add: b_def\<close>)
  then show ?thesis using assms(1) by (auto simp: b_def)
qed

lemma alloc_split:
  "(y, bsz) \<in> set (alloc_list a0 bs)
   \<Longrightarrow> \<exists>pre post. bs = pre @ (bsz, True) # post \<and> y = a0 + total pre"
proof (induction bs arbitrary: a0)
  case Nil
  then show ?case by simp
next
  case (Cons b bs)
  show ?case
  proof (cases "(y, bsz) \<in> set (alloc_list (a0 + fst b) bs)")
    case True
    from Cons.IH [OF this] obtain pre post where
      "bs = pre @ (bsz, True) # post" "y = a0 + fst b + total pre" by blast
    then have "b # bs = (b # pre) @ (bsz, True) # post \<and> y = a0 + total (b # pre)" by simp
    then show ?thesis by blast
  next
    case False
    then have "snd b \<and> y = a0 \<and> bsz = fst b" using Cons.prems by (auto split: if_splits)
    then have "b # bs = [] @ (bsz, True) # bs \<and> y = a0 + total []" by (cases b) auto
    then show ?thesis by blast
  qed
qed

lemma alloc_range:
  assumes "heap_inv s a0 bs fl" "(y, bsz) \<in> set (alloc_list a0 bs)"
  shows "16 \<le> y" "y + bsz < 4294967296" "16 \<le> bsz" "8 dvd y"
proof -
  from alloc_split [OF assms(2)] obtain pre post where
    sp: "bs = pre @ (bsz, True) # post" "y = a0 + total pre" by blast
  from assms(1) have "tagsm (mem s) a0 (pre @ (bsz, True) # post)"
    by (simp add: heap_inv_def tags_ok_def sp(1))
  note b = tagsm_bounds [OF this, simplified]
  show "16 \<le> y" "y + bsz < 4294967296" "16 \<le> bsz" "8 dvd y" using b sp(2) by auto
qed

lemma payload_write:
  assumes inv: "heap_inv s a0 (pre @ (bsz, True) # post) fl" and x: "x = a0 + total pre"
    and fr: "same_out R (mem s) m'" and R: "R \<subseteq> {x..<x + bsz - 8}"
  shows "heap_inv (s\<lparr>mem := m'\<rparr>) a0 (pre @ (bsz, True) # post) fl"
proof -
  let ?bs = "pre @ (bsz, True) # post"
  from inv have t: "tags_ok s a0 ?bs" and fl: "flist_ok s fl"
    and sf: "set fl = set (free_addrs a0 ?bs)" and na: "no_adj ?bs"
    by (auto simp: heap_inv_def)
  from t have tm: "tagsm (mem s) a0 ?bs" by (simp add: tags_ok_def)
  note b = tagsm_bounds [OF tm, simplified]
  note h = tagsm_here [OF tm x, simplified]
  have g1: "GET m' (W (x - 4)) = GET (mem s) (W (x - 4))"
    using b x R by (intro GET_same_out [OF fr]) auto
  have g2: "GET m' (W (x + bsz - 8)) = GET (mem s) (W (x + bsz - 8))"
    using b x R by (intro GET_same_out [OF fr]) auto
  have ts: "tseg m' x [(bsz, True)]" using g1 g2 h by simp
  have sub: "set fl \<subseteq> set (addrs a0 pre) \<union> set (addrs (x + total [(bsz, True)]) post)"
    using sf free_addrs_subset [of a0 pre] free_addrs_subset [of "x + bsz" post] x
    by (auto simp: free_addrs_mid)
  have t1: "tags_ok s a0 (pre @ [(bsz, True)] @ post)" using t by simp
  have R': "R \<subseteq> {x - 4..<x + total [(bsz, True)] - 4}" using R by auto
  note rt = retag_step [OF t1 fl x sub fr R' ts]
  show ?thesis using rt b sf na by (auto simp: heap_inv_def)
qed

lemma live_W_inj:
  assumes inv: "heap_inv s a0 bs fl"
    and "(y, b) \<in> set (alloc_list a0 bs)" "(y', b') \<in> set (alloc_list a0 bs)" "W y = W y'"
  shows "y = y'"
  using alloc_range(1,2,3) [OF inv assms(2)] alloc_range(1,2,3) [OF inv assms(3)] assms(4)
    W_eq [of y y'] by auto

lemma alloc_list_fun:
  assumes "sizes_ok bs" "(y, b) \<in> set (alloc_list a0 bs)" "(y, b') \<in> set (alloc_list a0 bs)"
  shows "b = b'"
proof -
  from alloc_split [OF assms(2)] obtain pre post where
    sp: "bs = pre @ (b, True) # post" "y = a0 + total pre" by blast
  have so: "sizes_ok pre" "sizes_ok post" "16 \<le> b" using assms(1) sp(1) by auto
  have "(y, b') \<in> set (alloc_list a0 pre) \<or> (y, b') = (y, b) \<or> (y, b') \<in> set (alloc_list (y + b) post)"
    using assms(3) sp by (auto simp: alloc_list_append)
  then show ?thesis
    using alloc_list_bounds [OF so(1), of y b' a0] alloc_list_bounds [OF so(2), of y b' "y + b"]
      sp(2) so(3) by auto
qed

lemma live_okD:
  assumes "live_ok a0 bs L" "L p = Some n"
  obtains y bsz where "p = W y" "(y, bsz) \<in> set (alloc_list a0 bs)" "uint n + 8 \<le> bsz"
  using assms unfolding live_ok_def by blast

lemma inv_malloc:
  assumes I: "INV s L" and rng: "uint sz \<le> 4294967280" and m: "mm_malloc s sz = Some (p, s')"
  shows "INV s' (if p = NULL then L else L(p \<mapsto> sz))" and "8 dvd uint p"
    and "p \<noteq> NULL \<Longrightarrow> L p = None"
proof -
  from I obtain a0 bs fl where inv: "heap_inv s a0 bs fl" and lo: "live_ok a0 bs L"
    by (auto simp: INV_def)
  note ap = adj_props [OF _ rng, simplified]
  from mm_malloc_res [OF inv rng]
  consider (fail) "mm_malloc s sz = Some (NULL, s)"
    | (ok) y pre bsz post fl' s'' where "mm_malloc s sz = Some (W y, s'')" "W y \<noteq> NULL"
        "y = a0 + total pre" "8 dvd y" "heap_inv s'' a0 (pre @ (bsz, True) # post) fl'"
        "adj (uint sz) \<le> bsz"
        "set (alloc_list a0 (pre @ (bsz, True) # post)) = insert (y, bsz) (set (alloc_list a0 bs))"
        "y \<notin> fst ` set (alloc_list a0 bs)"
    by blast
  then have "INV s' (if p = NULL then L else L(p \<mapsto> sz)) \<and> 8 dvd uint p \<and> (p \<noteq> NULL \<longrightarrow> L p = None)"
  proof cases
    case fail
    then show ?thesis using m I by (simp add: NULL_def)
  next
    case ok
    have e: "p = W y" "s' = s''" using ok(1) m by auto
    have yin: "(y, bsz) \<in> set (alloc_list a0 (pre @ (bsz, True) # post))" using ok(7) by simp
    note yr = alloc_range [OF ok(5) yin]
    have uy: "uint (W y) = y" using yr by (intro uint_W) auto
    have fresh: "L (W y) = None"
    proof (rule ccontr)
      assume "L (W y) \<noteq> None"
      then obtain n where n: "L (W y) = Some n" by auto
      from live_okD [OF lo n] obtain y' b' where
        y': "W y = W y'" "(y', b') \<in> set (alloc_list a0 bs)" by metis
      note r' = alloc_range [OF inv y'(2)]
      have "y = y'" using y'(1) yr r' W_eq [of y y'] by auto
      then show False using y'(2) ok(8) by force
    qed
    have "live_ok a0 (pre @ (bsz, True) # post) (L(W y \<mapsto> sz))"
      unfolding live_ok_def
    proof (intro allI impI)
      fix q n assume q: "(L(W y \<mapsto> sz)) q = Some n"
      show "\<exists>y' b'. q = W y' \<and> (y', b') \<in> set (alloc_list a0 (pre @ (bsz, True) # post))
              \<and> uint n + 8 \<le> b'"
      proof (cases "q = W y")
        case True
        then have "n = sz" using q by simp
        then show ?thesis using True yin ap(3) ok(6) by (intro exI [of _ y] exI [of _ bsz]) simp
      next
        case False
        then have "L q = Some n" using q by simp
        from live_okD [OF lo this] obtain y' b' where
          "q = W y'" "(y', b') \<in> set (alloc_list a0 bs)" "uint n + 8 \<le> b'" by metis
        then show ?thesis using ok(7) by blast
      qed
    qed
    then have "INV s'' (L(W y \<mapsto> sz))" using ok(5) by (auto simp: INV_def)
    then show ?thesis using e ok(2,4) uy fresh by simp
  qed
  then show "INV s' (if p = NULL then L else L(p \<mapsto> sz))" and "8 dvd uint p"
    and "p \<noteq> NULL \<Longrightarrow> L p = None" by auto
qed

lemma inv_free:
  assumes I: "INV s L" and p: "L p = Some n"
  shows "INV (mm_free s p) (L(p := None))"
proof -
  from I obtain a0 bs fl where inv: "heap_inv s a0 bs fl" and lo: "live_ok a0 bs L"
    by (auto simp: INV_def)
  from live_okD [OF lo p] obtain y bsz where
    y: "p = W y" "(y, bsz) \<in> set (alloc_list a0 bs)" by metis
  from alloc_split [OF y(2)] obtain pre post where
    sp: "bs = pre @ (bsz, True) # post" "y = a0 + total pre" by blast
  from mm_free_ok [OF inv [unfolded sp(1)] sp(2)] obtain pre' rsz post' fl' where k:
    "heap_inv (mm_free s (W y)) a0 (pre' @ (rsz, False) # post') fl'"
    "alloc_list a0 (pre' @ (rsz, False) # post') = alloc_list a0 pre @ alloc_list (y + bsz) post"
    by blast
  have al: "set (alloc_list a0 bs) = insert (y, bsz) (set (alloc_list a0 (pre' @ (rsz, False) # post')))"
    unfolding k(2) sp(1) using sp(2) by (simp add: alloc_list_append)
  have "live_ok a0 (pre' @ (rsz, False) # post') (L(p := None))"
    unfolding live_ok_def
  proof (intro allI impI)
    fix q m assume q: "(L(p := None)) q = Some m"
    then have qp: "q \<noteq> p" and lq: "L q = Some m" by (auto split: if_splits)
    from live_okD [OF lo lq] obtain y' b' where
      y': "q = W y'" "(y', b') \<in> set (alloc_list a0 bs)" "uint m + 8 \<le> b'" by metis
    have "y' \<noteq> y" using qp y(1) y'(1) by auto
    then have "(y', b') \<in> set (alloc_list a0 (pre' @ (rsz, False) # post'))"
      using y'(2) al by auto
    then show "\<exists>y b. q = W y \<and> (y, b) \<in> set (alloc_list a0 (pre' @ (rsz, False) # post'))
            \<and> uint m + 8 \<le> b" using y'(1,3) by blast
  qed
  then show ?thesis using k(1) y(1) by (auto simp: INV_def)
qed

lemma inv_write:
  assumes I: "INV s L" and p: "L p = Some n" and fr: "\<forall>a. n \<le> a - p \<longrightarrow> m' a = mem s a"
  shows "INV (s\<lparr>mem := m'\<rparr>) L"
proof -
  from I obtain a0 bs fl where inv: "heap_inv s a0 bs fl" and lo: "live_ok a0 bs L"
    by (auto simp: INV_def)
  from live_okD [OF lo p] obtain y bsz where
    y: "p = W y" "(y, bsz) \<in> set (alloc_list a0 bs)" "uint n + 8 \<le> bsz" by metis
  from alloc_split [OF y(2)] obtain pre post where
    sp: "bs = pre @ (bsz, True) # post" "y = a0 + total pre" by blast
  note yr = alloc_range [OF inv y(2)]
  have un: "0 \<le> uint n" by simp
  have so: "same_out {y..<y + uint n} (mem s) m'"
    unfolding same_out_def
  proof (intro allI impI)
    fix k assume k: "0 \<le> k \<and> k < 4294967296 \<and> k \<notin> {y..<y + uint n}"
    have "uint (W (k - y)) = (if y \<le> k then k - y else 4294967296 + k - y)"
      using k yr by (intro uint_W_diff) auto
    then have "uint n \<le> uint (W (k - y))" using k yr y(3) by (auto split: if_splits)
    then have "n \<le> W k - p" by (simp add: word_le_def y(1))
    then show "m' (W k) = mem s (W k)" using fr by blast
  qed
  have R: "{y..<y + uint n} \<subseteq> {y..<y + bsz - 8}" using y(3) by auto
  have "heap_inv (s\<lparr>mem := m'\<rparr>) a0 (pre @ (bsz, True) # post) fl"
    using inv [unfolded sp(1)] sp(2) so R by (rule payload_write)
  then show ?thesis using lo sp(1) by (auto simp: INV_def)
qed

lemma inv_realloc:
  assumes I: "INV s L" and p: "L p = Some n" and rng: "uint sz \<le> 4294967280"
    and r: "mm_realloc s p sz = Some (Returned q s')"
  shows "INV s' ((L(p := None))(q \<mapsto> sz))" and "8 dvd uint q"
proof -
  from r obtain s1 where m: "mm_malloc s sz = Some (q, s1)" and qn: "q \<noteq> NULL"
    and s': "s' = mm_free (s1\<lparr>mem := memcpy (mem s1) q p (realloc_copySize s1 p sz)\<rparr>) p"
    by (auto simp: mm_realloc_def Let_def split: option.splits prod.splits if_splits)
  note im = inv_malloc [OF I rng m]
  have I1: "INV s1 (L(q \<mapsto> sz))" using im(1) qn by simp
  have pq: "p \<noteq> q" using im(3) [OF qn] p by auto
  have c: "realloc_copySize s1 p sz \<le> sz"
    by (simp add: realloc_copySize_def Let_def not_less)
  have fr: "\<forall>a. sz \<le> a - q \<longrightarrow> memcpy (mem s1) q p (realloc_copySize s1 p sz) a = mem s1 a"
    using c by (auto simp: memcpy_def)
  have I2: "INV (s1\<lparr>mem := memcpy (mem s1) q p (realloc_copySize s1 p sz)\<rparr>) (L(q \<mapsto> sz))"
    using I1 _ fr by (rule inv_write) simp
  have lp: "(L(q \<mapsto> sz)) p = Some n" using p pq by simp
  have "INV (mm_free (s1\<lparr>mem := memcpy (mem s1) q p (realloc_copySize s1 p sz)\<rparr>) p)
      ((L(q \<mapsto> sz))(p := None))"
    using I2 lp by (rule inv_free)
  then have "INV s' ((L(q \<mapsto> sz))(p := None))" by (simp only: s')
  moreover have "(L(q \<mapsto> sz))(p := None) = (L(p := None))(q \<mapsto> sz)"
    using pq by (simp add: fun_upd_twist)
  ultimately show "INV s' ((L(p := None))(q \<mapsto> sz))" by simp
  show "8 dvd uint q" by (rule im(2))
qed

lemma reach_INV: "reach s L \<Longrightarrow> INV s L"
proof (induction rule: reach.induct)
  case (r_init s0 s)
  from mm_init_inv [OF r_init(2,1)] show ?case by (auto simp: INV_def live_ok_def)
next
  case (r_malloc s L sz p s')
  then show ?case using inv_malloc(1) by blast
next
  case (r_free s L p n)
  then show ?case using inv_free by blast
next
  case (r_realloc s L p n sz q s')
  then show ?case using inv_realloc(1) by blast
next
  case (r_store s L p n d v)
  have "\<forall>a. n \<le> a - p \<longrightarrow> ((mem s)(p + d := v)) a = mem s a"
    using r_store(3) by auto
  with r_store(4,2) show ?case by (rule inv_write)
qed

lemma reach_st1: "reach st1 Map.empty"
proof -
  have "8 dvd uint (mem_brk st0)" by (simp add: st0_def)
  then show ?thesis using st1_init by (rule r_init)
qed

lemma reach_st_used: "reach st_used [0x1010 \<mapsto> 4088]"
proof -
  have "reach st_used (if (0x1010 :: addr) = NULL then Map.empty else [0x1010 \<mapsto> 4088])"
    using reach_st1 _ st1_malloc_4088 by (rule r_malloc) simp
  then show ?thesis by (simp add: NULL_def)
qed

lemma reach_st_used_freed: "reach (mm_free st_used 0x1010) Map.empty"
proof -
  have "reach (mm_free st_used 0x1010) ([0x1010 \<mapsto> 4088](0x1010 := None))"
    using reach_st_used by (rule r_free) simp
  then show ?thesis by simp
qed







lemma adjust_size_wrap: "adjust_size 0xFFFFFFF9 = 8"
  by (simp add: adjust_size_def DSIZE_def OVERHEAD_def)

lemma ov_malloc:
  assumes hd: "mp_firstfreeblock s = W y" and cnt: "m_freecount s = 1"
    and h: "GET (mem s) (W (y - 4)) = tagw c False" and c: "24 \<le> c" "8 dvd c"
    and y: "16 \<le> y" "y + c < 4294967296"
  shows "mm_malloc s 0xFFFFFFF9 = Some (W y, place s (W y) 8)"
    and "mem (place s (W y) 8)
      = PUT (PUT (PUT (PUT (PUT (PUT (PUT (PUT (mem s) (W y) 0) (W (y + 4)) 0)
          (W (y - 4)) (tagw 8 True)) (W y) (tagw 8 True)) (W (y + 4)) (tagw (c - 8) False))
          (W (y + c - 8)) (tagw (c - 8) False)) (W (y + 12)) 0) (W (y + 8)) 0"
    and "mp_firstfreeblock (place s (W y) 8) = W (y + 8)" and "m_freecount (place s (W y) 8) = 1"
    and "p_heap_list (place s (W y) 8) = p_heap_list s"
proof -
  have sz: "GET_SIZE (mem s) (W (y - 4)) = W c" using h c by (intro GET_SIZE_tag) auto
  have al: "GET_ALLOC (mem s) (W (y - 4)) = 0" using GET_ALLOC_tag [OF h c(2)] by simp
  have nz: "W y \<noteq> 0" using y c by (simp add: W_eq_0)
  have le: "(8 :: 32 word) \<le> W c" using W_le [of 8 c] c y by simp
  have ff: "find_fit s 8 = Some (W y)"
    unfolding find_fit_def hd
    by (subst find_fit_loop.simps) (simp add: cnt nz NULL_def sz al le)
  show "mm_malloc s 0xFFFFFFF9 = Some (W y, place s (W y) 8)"
    using ff nz by (simp add: mm_malloc_def adjust_size_wrap Let_def NULL_def)
  have ge: "DSIZE + OVERHEAD \<le> W (c - 8)" using c y by (subst W_ge16) auto
  have p81: "PACK 8 1 = tagw 8 True" by (simp add: tagw_def)
  have pc: "PACK (W (c - 8)) 0 = tagw (c - 8) False" by (simp add: tagw_def)
  let ?m1 = "PUT (PUT (mem s) (W y) 0) (W (y + 4)) 0"
  let ?m2 = "PUT ?m1 (W (y - 4)) (tagw 8 True)"
  let ?m3 = "PUT ?m2 (W y) (tagw 8 True)"
  let ?m4 = "PUT ?m3 (W (y + 4)) (tagw (c - 8) False)"
  let ?m5 = "PUT ?m4 (W (y + c - 8)) (tagw (c - 8) False)"
  have f2: "FTRP ?m2 (W y) = W y"
    using FTRP_W [of ?m2 y 8 True] by (simp add: GET_PUT_same)
  have g3: "GET ?m3 (W (y - 4)) = tagw 8 True" using y c by (simp add: GET_PUT_W_if)
  have n3: "NEXT_BLKP ?m3 (W y) = W (y + 8)" using g3 by (rule NEXT_BLKP_W) simp
  have e4: "y + 8 - 4 = y + 4" "y + 8 + (c - 8) - 8 = y + c - 8" by simp_all
  have "FTRP ?m4 (W (y + 8)) = W (y + 8 + (c - 8) - 8)"
  proof (rule FTRP_W [where al = False])
    show "GET ?m4 (W (y + 8 - 4)) = tagw (c - 8) False" by (simp only: e4 GET_PUT_same)
    show "8 dvd c - 8" using c by simp
  qed
  then have f4: "FTRP ?m4 (W (y + 8)) = W (y + c - 8)" by (simp only: e4)
  have e12: "W (12 + y) = W (y + 12)" by (simp add: add.commute)
  have hd0: "HDRP (W y) = W (y - 4)" "HDRP (W (y + 8)) = W (y + 4)" by (simp_all add: add.commute)
  have pl: "place s (W y) 8 = free_block
      ((allocate_block s (W y))\<lparr>mem := ?m5\<rparr>) (W (y + 8))"
    using sz ge f2 n3 f4 cnt
    by (simp add: place_def Let_def PUTs_def p81 pc allocate_block_def set_PREV_def set_SUCC_def
        SUC_PTR_def WSIZE_def NULL_def hd0 del: HDRP_W)
  show "mem (place s (W y) 8)
      = PUT (PUT ?m5 (W (y + 12)) 0) (W (y + 8)) 0"
    unfolding pl using cnt e12
    by (simp add: free_block_def allocate_block_def set_PREV_def set_SUCC_def SUC_PTR_def
        WSIZE_def NULL_def Let_def)
  show "mp_firstfreeblock (place s (W y) 8) = W (y + 8)"
    unfolding pl using cnt
    by (simp add: free_block_def allocate_block_def set_PREV_def set_SUCC_def NULL_def Let_def)
  show "m_freecount (place s (W y) 8) = 1"
    unfolding pl using cnt
    by (simp add: free_block_def allocate_block_def set_PREV_def set_SUCC_def NULL_def Let_def)
  show "p_heap_list (place s (W y) 8) = p_heap_list s"
    unfolding pl using cnt
    by (simp add: free_block_def allocate_block_def set_PREV_def set_SUCC_def NULL_def Let_def)
qed

lemma ov_free:
  assumes g1: "GET (mem s) (W (x - 4)) = tagw 8 True" and g2: "GET (mem s) (W (x - 8)) = tagw 8 True"
    and g3: "GET (mem s) (W (x - 12)) = tagw 8 True" and g4: "GET (mem s) (W (x + 4)) = tagw 8 True"
    and hd: "mp_firstfreeblock s = W (x + 16)" and ph: "p_heap_list s = W (x - 8)"
    and x: "16 \<le> x" "x + 24 < 4294967296"
  shows "mem (mm_free s (W x))
      = PUT (PUT (PUT (PUT (PUT (mem s) (W (x - 4)) (tagw 8 False)) (W x) (tagw 8 False))
          (W (x + 4)) (W (x + 16))) (W x) 0) (W (x + 16)) (W x)"
    and "mp_firstfreeblock (mm_free s (W x)) = W x"
    and "p_heap_list (mm_free s (W x)) = W (x - 8)"
proof -
  let ?m1 = "PUT (mem s) (W (x - 4)) (tagw 8 False)"
  let ?m2 = "PUT ?m1 (W x) (tagw 8 False)"
  let ?s2 = "s\<lparr>mem := ?m2\<rparr>"
  have p80: "PACK 8 0 = tagw 8 False" by (simp add: tagw_def)
  have sz: "GET_SIZE (mem s) (W (x - 4)) = 8" using GET_SIZE_tag [OF g1] by simp
  have f1: "FTRP ?m1 (W x) = W x" using FTRP_W [of ?m1 x 8 False] by (simp add: GET_PUT_same)
  have fe: "mm_free s (W x) = snd (coalesce ?s2 (W x))"
    using sz f1 by (simp add: mm_free_def Let_def PUTs_def p80)
  have h1: "GET ?m2 (W (x - 4)) = tagw 8 False" using x by (simp add: GET_PUT_W_if)
  have h2: "GET ?m2 (W (x - 8)) = tagw 8 True" using x g2 by (simp add: GET_PUT_W_if)
  have h3: "GET ?m2 (W (x - 12)) = tagw 8 True" using x g3 by (simp add: GET_PUT_W_if)
  have h4: "GET ?m2 (W (x + 4)) = tagw 8 True" using x g4 by (simp add: GET_PUT_W_if)
  have pv: "PREV_BLKP ?m2 (W x) = W (x - 8)" using h2 by (rule PREV_BLKP_W) simp
  have e: "x - 8 - 4 = x - 12" "x - 8 + 8 - 8 = x - 8" "x + 8 - 4 = x + 4" by simp_all
  have "FTRP ?m2 (W (x - 8)) = W (x - 8 + 8 - 8)"
  proof (rule FTRP_W [where al = True])
    show "GET ?m2 (W (x - 8 - 4)) = tagw 8 True" using h3 by (simp only: e)
  qed simp
  then have pf: "FTRP ?m2 (W (x - 8)) = W (x - 8)" by (simp only: e)
  have pa: "GET_ALLOC ?m2 (W (x - 8)) = 1" using GET_ALLOC_tag [OF h2] by simp
  have nx: "NEXT_BLKP ?m2 (W x) = W (x + 8)" using h1 by (rule NEXT_BLKP_W) simp
  have hn: "HDRP (W (x + 8)) = W (x + 4)" by (simp add: add.commute)
  have na: "GET_ALLOC ?m2 (W (x + 4)) = 1" using GET_ALLOC_tag [OF h4] by simp
  have co: "coalesce ?s2 (W x) = (W x, free_block ?s2 (W x))"
    using pv pf pa nx na
    by (simp add: coalesce_def coalesce_tr_def Let_def hn del: HDRP_W)
  have n1: "W (x + 16) \<noteq> W (x - 8)" using x W_eq [of "x + 16" "x - 8"] by simp
  have n2: "W (x + 16) \<noteq> 0" using x by (simp add: W_eq_0)
  have e4: "W (4 + x) = W (x + 4)" by (simp add: add.commute)
  have fb: "free_block ?s2 (W x) = ?s2\<lparr>m_freecount := m_freecount s + 1,
      mem := PUT (PUT (PUT ?m2 (W (x + 4)) (W (x + 16))) (W x) 0) (W (x + 16)) (W x),
      mp_firstfreeblock := W x\<rparr>"
    using hd ph n1 n2
    by (simp add: free_block_def Let_def set_SUCC_def set_PREV_def SUC_PTR_def WSIZE_def NULL_def)
  show "mem (mm_free s (W x))
      = PUT (PUT (PUT ?m2 (W (x + 4)) (W (x + 16))) (W x) 0) (W (x + 16)) (W x)"
    by (simp add: fe co fb)
  show "mp_firstfreeblock (mm_free s (W x)) = W x" by (simp add: fe co fb)
  show "p_heap_list (mm_free s (W x)) = W (x - 8)" by (simp add: fe co fb ph)
qed

lemma heap_walk_step:
  "GET_SIZE m (HDRP bp) \<noteq> 0 \<Longrightarrow> 0 < k
   \<Longrightarrow> heap_walk m k bp = bp # heap_walk m (k - 1) (NEXT_BLKP m bp)"
  by (cases k) auto

lemma ov_trace:
  assumes hd: "mp_firstfreeblock s = W x" and cnt: "m_freecount s = 1"
    and ph: "p_heap_list s = W (x - 8)"
    and h: "GET (mem s) (W (x - 4)) = tagw 4096 False"
    and pf: "GET (mem s) (W (x - 8)) = tagw 8 True"
    and phd: "GET (mem s) (W (x - 12)) = tagw 8 True"
    and x: "16 \<le> x" "x + 4096 < 4294967296" "8 dvd x"
  defines "s1 \<equiv> place s (W x) 8"
  defines "s2 \<equiv> place s1 (W (x + 8)) 8"
  defines "s3 \<equiv> mm_free s2 (W x)"
  shows "mm_malloc s 0xFFFFFFF9 = Some (W x, s1)"
    and "mm_malloc s1 0xFFFFFFF9 = Some (W (x + 8), s2)"
    and "W x \<in> set (heap_blocks s3)" and "W (x + 8) \<in> set (heap_blocks s3)"
    and "GET_ALLOC (mem s3) (HDRP (W x)) = 0" and "NEXT_BLKP (mem s3) (W x) = W (x + 8)"
    and "GET_ALLOC (mem s3) (HDRP (W (x + 8))) = 0"
    and "free_list s3 = [W x, W (x + 16)]"
    and "mp_firstfreeblock s1 = W (x + 8)" and "m_freecount s1 = 1"
    and "GET (mem s1) (W (x + 4)) = tagw 4088 False" and "GET (mem s1) (W (x + 12)) = 0"
proof -
  note a = ov_malloc [OF hd cnt h _ _ x(1,2), simplified, folded s1_def]
  show "mm_malloc s 0xFFFFFFF9 = Some (W x, s1)" by (rule a(1))
  show a3: "mp_firstfreeblock s1 = W (x + 8)" by (rule a(3))
  show a4: "m_freecount s1 = 1" by (rule a(4))
  show h1: "GET (mem s1) (W (x + 4)) = tagw 4088 False"
    unfolding a(2) using x by (simp add: GET_PUT_W_if)
  show "GET (mem s1) (W (x + 12)) = 0"
    unfolding a(2) using x by (simp add: GET_PUT_W_if)
  have e: "x + 8 - 4 = x + 4" "x + 8 + 4088 < 4294967296 = (x + 4096 < 4294967296)" by auto
  have h1': "GET (mem s1) (W (x + 8 - 4)) = tagw 4088 False" using h1 by (simp only: e)
  have xb: "16 \<le> x + 8" "x + 8 + 4088 < 4294967296" using x by auto
  note b = ov_malloc [OF a3 a4 h1' _ _ xb, folded s2_def]
  show "mm_malloc s1 0xFFFFFFF9 = Some (W (x + 8), s2)" by (rule b(1)) simp_all
  have b2: "mem s2
      = PUT (PUT (PUT (PUT (PUT (PUT (PUT (PUT (mem s1) (W (x + 8)) 0) (W (x + 8 + 4)) 0)
          (W (x + 8 - 4)) (tagw 8 True)) (W (x + 8)) (tagw 8 True)) (W (x + 8 + 4)) (tagw (4088 - 8) False))
          (W (x + 8 + 4088 - 8)) (tagw (4088 - 8) False)) (W (x + 8 + 12)) 0) (W (x + 8 + 8)) 0"
    by (rule b(2)) simp_all
  have b3: "mp_firstfreeblock s2 = W (x + 8 + 8)" by (rule b(3)) simp_all
  have b5: "p_heap_list s2 = p_heap_list s1" by (rule b(5)) simp_all
  have g1: "GET (mem s2) (W (x - 4)) = tagw 8 True"
    unfolding b2 a(2) using x by (simp add: GET_PUT_W_if)
  have g2: "GET (mem s2) (W (x - 8)) = tagw 8 True"
    unfolding b2 a(2) using x pf by (simp add: GET_PUT_W_if)
  have g3: "GET (mem s2) (W (x - 12)) = tagw 8 True"
    unfolding b2 a(2) using x phd by (simp add: GET_PUT_W_if)
  have g4: "GET (mem s2) (W (x + 4)) = tagw 8 True"
    unfolding b2 a(2) using x by (simp add: GET_PUT_W_if)
  have g5: "GET (mem s2) (W (x + 20)) = 0"
    unfolding b2 a(2) using x by (simp add: GET_PUT_W_if)
  have hd2: "mp_firstfreeblock s2 = W (x + 16)" using b3 by (simp add: add.commute)
  have ph2: "p_heap_list s2 = W (x - 8)" using b5 a(5) ph by simp
  have xc: "x + 24 < 4294967296" using x by simp
  note f = ov_free [OF g1 g2 g3 g4 hd2 ph2 x(1) xc, folded s3_def]
  have r1: "GET (mem s3) (W (x - 4)) = tagw 8 False"
    unfolding f(1) using x by (simp add: GET_PUT_W_if)
  have r2: "GET (mem s3) (W (x + 4)) = tagw (x + 16) False"
    unfolding f(1) using x by (simp add: GET_PUT_W_if tagw_def PACK_def)
  have r3: "GET (mem s3) (W (x - 12)) = tagw 8 True"
    unfolding f(1) using x g3 by (simp add: GET_PUT_W_if)
  have r4: "GET (mem s3) (W (x + 20)) = 0"
    unfolding f(1) using x g5 by (simp add: GET_PUT_W_if)
  have d16: "8 dvd x + 16" using x(3) by simp
  have z1: "GET_SIZE (mem s3) (W (x - 12)) = 8" using GET_SIZE_tag [OF r3] by simp
  have z2: "GET_SIZE (mem s3) (W (x - 4)) = 8" using GET_SIZE_tag [OF r1] by simp
  have z3: "GET_SIZE (mem s3) (W (x + 4)) = W (x + 16)" using r2 d16 by (rule GET_SIZE_tag)
  have nz3: "W (x + 16) \<noteq> 0" using x by (simp add: W_eq_0)
  have hp: "HDRP (W (x - 8)) = W (x - 12)" "HDRP (W x) = W (x - 4)" "HDRP (W (x + 8)) = W (x + 4)"
    by (simp_all add: add.commute)
  have n1: "NEXT_BLKP (mem s3) (W (x - 8)) = W x"
    using NEXT_BLKP_W [of "mem s3" "x - 8" 8 True] r3 by simp
  show n2: "NEXT_BLKP (mem s3) (W x) = W (x + 8)" using r1 by (rule NEXT_BLKP_W) simp
  show fl0: "GET_ALLOC (mem s3) (HDRP (W x)) = 0"
    unfolding hp using GET_ALLOC_tag [OF r1] by simp
  show "GET_ALLOC (mem s3) (HDRP (W (x + 8))) = 0"
    unfolding hp using GET_ALLOC_tag [OF r2 d16] by simp
  have w1: "heap_walk (mem s3) (2 ^ 29) (W (x - 8))
      = W (x - 8) # heap_walk (mem s3) (2 ^ 29 - 1) (W x)"
    using heap_walk_step [of "mem s3" "W (x - 8)" "2 ^ 29"] z1 n1 unfolding hp by simp
  have w2: "heap_walk (mem s3) (2 ^ 29 - 1) (W x)
      = W x # heap_walk (mem s3) (2 ^ 29 - 1 - 1) (W (x + 8))"
    using heap_walk_step [of "mem s3" "W x" "2 ^ 29 - 1"] z2 n2 unfolding hp by simp
  have w3: "heap_walk (mem s3) (2 ^ 29 - 1 - 1) (W (x + 8))
      = W (x + 8) # heap_walk (mem s3) (2 ^ 29 - 1 - 1 - 1) (NEXT_BLKP (mem s3) (W (x + 8)))"
    using heap_walk_step [of "mem s3" "W (x + 8)" "2 ^ 29 - 1 - 1"] z3 nz3 unfolding hp by simp
  have hb: "heap_blocks s3 = W (x - 8) # W x # W (x + 8)
      # heap_walk (mem s3) (2 ^ 29 - 1 - 1 - 1) (NEXT_BLKP (mem s3) (W (x + 8)))"
    unfolding heap_blocks_def f(3) w1 w2 w3 ..
  show "W x \<in> set (heap_blocks s3)" unfolding hb by simp
  show "W (x + 8) \<in> set (heap_blocks s3)" unfolding hb by simp
  have nzx: "W x \<noteq> 0" using x by (simp add: W_eq_0)
  have su1: "SUCC (mem s3) (W x) = W (x + 16)"
    using r2 by (simp add: SUCC_def tagw_def PACK_def)
  have "SUC_PTR (W (x + 16)) = W (x + 20)" by (simp add: SUC_PTR_def WSIZE_def W_def)
  then have su2: "SUCC (mem s3) (W (x + 16)) = 0"
    using r4 by (simp only: SUCC_def)
  have "chain (mem s3) (W x) [W x, W (x + 16)]"
    using nzx nz3 su1 su2 by (simp add: NULL_def)
  then have "flist_walk (mem s3) (2 ^ 29) (W x) = [W x, W (x + 16)]"
    by (rule flist_walk_chain) simp
  then show "free_list s3 = [W x, W (x + 16)]" by (simp add: free_list_def f(2))
qed

lemma st1_fields:
  "mp_firstfreeblock st1 = W 4112" "m_freecount st1 = 1" "p_heap_list st1 = W (4112 - 8)"
  "GET (mem st1) (W (4112 - 4)) = tagw 4096 False" "GET (mem st1) (W (4112 - 8)) = tagw 8 True"
  "GET (mem st1) (W (4112 - 12)) = tagw 8 True"
  using st1_inv by (simp_all add: heap_inv_def tags_ok_def tagsm_def flist_ok_def)

lemma st_ov_trace:
  "mm_malloc st1 0xFFFFFFF9 = Some (0x1010, st_ov1)"
  "mm_malloc st_ov1 0xFFFFFFF9 = Some (0x1018, st_ov2)"
  "0x1010 \<in> set (heap_blocks st_ov3)" "0x1018 \<in> set (heap_blocks st_ov3)"
  "GET_ALLOC (mem st_ov3) (HDRP 0x1010) = 0" "NEXT_BLKP (mem st_ov3) 0x1010 = 0x1018"
  "GET_ALLOC (mem st_ov3) (HDRP 0x1018) = 0"
  "free_list st_ov3 = [0x1010, 0x1020]"
  using ov_trace [OF st1_fields, simplified]
  by (simp_all add: st_ov1_def st_ov2_def st_ov3_def)



lemma ov_find:
  assumes hd: "mp_firstfreeblock s = W (x + 8)" and cnt: "m_freecount s = 1"
    and x: "16 \<le> x" "x + 64 < 4294967296"
  shows "mm_malloc (s\<lparr>mem := PUT (PUT (PUT (mem s) (W (x + 4)) 0xFF9) (W (x + 12)) (W (x + 33)))
            (W (x + 29)) 32\<rparr>) 8
    = Some (W (x + 33),
        place (s\<lparr>mem := PUT (PUT (PUT (mem s) (W (x + 4)) 0xFF9) (W (x + 12)) (W (x + 33)))
            (W (x + 29)) 32\<rparr>) (W (x + 33)) 16)"
proof -
  let ?m = "PUT (PUT (PUT (mem s) (W (x + 4)) 0xFF9) (W (x + 12)) (W (x + 33))) (W (x + 29)) 32"
  let ?s = "s\<lparr>mem := ?m\<rparr>"
  have g1: "GET ?m (W (x + 4)) = 0xFF9" using x by (simp add: GET_PUT_W_if)
  have g2: "GET ?m (W (x + 12)) = W (x + 33)" using x by (simp add: GET_PUT_W_if)
  have g3: "GET ?m (W (x + 29)) = 32" by (simp add: GET_PUT_same)
  have hp: "HDRP (W (x + 8)) = W (x + 4)" "HDRP (W (x + 33)) = W (x + 29)"
    "SUC_PTR (W (x + 8)) = W (x + 12)"
    by (simp_all add: HDRP_def SUC_PTR_def WSIZE_def W_def)
  have n1: "W (x + 8) \<noteq> 0" "W (x + 33) \<noteq> 0" using x by (simp_all add: W_eq_0)
  have a1: "GET_ALLOC ?m (HDRP (W (x + 8))) = 1" unfolding hp by (simp add: GET_ALLOC_def g1)
  have a2: "GET_ALLOC ?m (HDRP (W (x + 33))) = 0" unfolding hp by (simp add: GET_ALLOC_def g3)
  have z2: "GET_SIZE ?m (HDRP (W (x + 33))) = 32" unfolding hp by (simp add: GET_SIZE_def g3)
  have su: "SUCC ?m (W (x + 8)) = W (x + 33)" unfolding SUCC_def hp by (rule g2)
  have l2: "find_fit_loop ?s 16 (W (x + 33)) = Some (W (x + 33))"
    by (subst find_fit_loop.simps) (simp add: cnt n1 NULL_def a2 z2 del: HDRP_W)
  have l1: "find_fit_loop ?s 16 (W (x + 8)) = find_fit_loop ?s 16 (W (x + 33))"
    by (subst find_fit_loop.simps) (simp add: cnt n1 NULL_def a1 su del: HDRP_W)
  have ff: "find_fit ?s 16 = Some (W (x + 33))"
    unfolding find_fit_def using hd l1 l2 by simp
  have ad: "adjust_size 8 = 16" by (simp add: adjust_size_def DSIZE_def OVERHEAD_def)
  show ?thesis using ff n1 by (simp add: mm_malloc_def ad Let_def NULL_def)
qed


end
